theory Spec2Isabelle
  imports Complex_Main "HOL-Library.Log_Nat"
begin

chapter \<open>The model\<close>

section \<open>JavaScript numbers\<close>

text \<open>
  Every number of the program is an IEEE 754 double: a finite value, one of the two
  infinities, or \<open>NaN\<close>. A finite double is kept as the real number it denotes, and an
  arithmetic operation computes the exact result and rounds it to the nearest double,
  ties to the even significand, overflowing to an infinity. The two zeros are one
  value here: the only operation that tells them apart is a division by zero, whose
  quotient \<open>computeNextRun\<close> multiplies by the zero period again, which is \<open>NaN\<close>
  whichever sign the quotient had.
\<close>

datatype jsnum = Finite real | PosInf | NegInf | NaN

text \<open>
  The exponent of the binade of a real number: \<open>2 ^ expo x \<le> \<bar>x\<bar> < 2 ^ (expo x + 1)\<close>,
  and \<open>- 1022\<close>, the exponent of the subnormal numbers, for zero and anything smaller
  than \<open>2 ^ - 1022\<close>.
\<close>

definition expo :: "real \<Rightarrow> int" where
  "expo x =
     (if 1 \<le> \<bar>x\<bar> then bitlen \<lfloor>\<bar>x\<bar>\<rfloor> - 1
      else if x = 0 then - 1022
      else max (- 1022) (- bitlen (\<lceil>1 / \<bar>x\<bar>\<rceil> - 1)))"

text \<open>The distance between neighbouring doubles in the binade of \<open>x\<close> (53 significant bits).\<close>

definition ulp :: "real \<Rightarrow> real" where
  "ulp x = 2 powi (expo x - 52)"

text \<open>The nearest integer, a tie going to the even one.\<close>

definition roundEven :: "real \<Rightarrow> int" where
  "roundEven t =
     (let f = \<lfloor>t\<rfloor>; r = t - of_int f
      in if r < 1 / 2 then f else if 1 / 2 < r then f + 1 else if even f then f else f + 1)"

text \<open>The double nearest to a real number.\<close>

definition round64 :: "real \<Rightarrow> jsnum" where
  "round64 x =
     (let y = of_int (roundEven (x / ulp x)) * ulp x
      in if 2 ^ 1024 \<le> y then PosInf else if y \<le> - (2 ^ 1024) then NegInf else Finite y)"

definition jsNeg :: "jsnum \<Rightarrow> jsnum" where
  "jsNeg a = (case a of Finite x \<Rightarrow> Finite (- x) | PosInf \<Rightarrow> NegInf | NegInf \<Rightarrow> PosInf | NaN \<Rightarrow> NaN)"

text \<open>\<open>a + b\<close>.\<close>

definition jsAdd :: "jsnum \<Rightarrow> jsnum \<Rightarrow> jsnum" where
  "jsAdd a b =
     (case (a, b) of
        (Finite x, Finite y) \<Rightarrow> round64 (x + y)
      | (NaN, _) \<Rightarrow> NaN
      | (_, NaN) \<Rightarrow> NaN
      | (PosInf, NegInf) \<Rightarrow> NaN
      | (NegInf, PosInf) \<Rightarrow> NaN
      | (Finite x, v) \<Rightarrow> v
      | (v, _) \<Rightarrow> v)"

text \<open>\<open>a - b\<close>.\<close>

definition jsSub :: "jsnum \<Rightarrow> jsnum \<Rightarrow> jsnum" where
  "jsSub a b = jsAdd a (jsNeg b)"

text \<open>\<open>a * b\<close>; an infinity times zero is \<open>NaN\<close>.\<close>

definition jsMul :: "jsnum \<Rightarrow> jsnum \<Rightarrow> jsnum" where
  "jsMul a b =
     (case (a, b) of
        (Finite x, Finite y) \<Rightarrow> round64 (x * y)
      | (NaN, _) \<Rightarrow> NaN
      | (_, NaN) \<Rightarrow> NaN
      | (Finite x, v) \<Rightarrow> (if x = 0 then NaN else if 0 < x then v else jsNeg v)
      | (v, Finite y) \<Rightarrow> (if y = 0 then NaN else if 0 < y then v else jsNeg v)
      | (PosInf, v) \<Rightarrow> v
      | (NegInf, v) \<Rightarrow> jsNeg v)"

text \<open>
  \<open>a / b\<close>; zero over zero and an infinity over an infinity are \<open>NaN\<close>, anything else over
  zero is an infinity.
\<close>

definition jsDiv :: "jsnum \<Rightarrow> jsnum \<Rightarrow> jsnum" where
  "jsDiv a b =
     (case (a, b) of
        (Finite x, Finite y) \<Rightarrow>
          (if y = 0 then (if x = 0 then NaN else if 0 < x then PosInf else NegInf)
           else round64 (x / y))
      | (NaN, _) \<Rightarrow> NaN
      | (_, NaN) \<Rightarrow> NaN
      | (Finite x, v) \<Rightarrow> Finite 0
      | (v, Finite y) \<Rightarrow> (if 0 \<le> y then v else jsNeg v)
      | (v, _) \<Rightarrow> NaN)"

text \<open>\<open>a > b\<close>; false when either side is \<open>NaN\<close>.\<close>

definition jsGt :: "jsnum \<Rightarrow> jsnum \<Rightarrow> bool" where
  "jsGt a b =
     (case (a, b) of
        (Finite x, Finite y) \<Rightarrow> y < x
      | (NaN, _) \<Rightarrow> False
      | (_, NaN) \<Rightarrow> False
      | (PosInf, PosInf) \<Rightarrow> False
      | (PosInf, _) \<Rightarrow> True
      | (_, PosInf) \<Rightarrow> False
      | (NegInf, _) \<Rightarrow> False
      | (_, NegInf) \<Rightarrow> True)"

text \<open>\<open>Math.floor(a)\<close> and \<open>Math.max(a, b)\<close>.\<close>

definition mathFloor :: "jsnum \<Rightarrow> jsnum" where
  "mathFloor a = (case a of Finite x \<Rightarrow> Finite (of_int \<lfloor>x\<rfloor>) | _ \<Rightarrow> a)"

definition mathMax :: "jsnum \<Rightarrow> jsnum \<Rightarrow> jsnum" where
  "mathMax a b = (if a = NaN \<or> b = NaN then NaN else if jsGt b a then b else a)"

text \<open>A number in a condition: zero and \<open>NaN\<close> are falsy.\<close>

definition truthyNum :: "jsnum \<Rightarrow> bool" where
  "truthyNum a = (case a of Finite x \<Rightarrow> x \<noteq> 0 | NaN \<Rightarrow> False | _ \<Rightarrow> True)"

text \<open>
  A whole number of milliseconds as a number, and the range of the time values:
  \<open>Date.now()\<close> and \<open>getTime()\<close> return whole numbers of at most 8.64e15 in magnitude.
\<close>

definition millis :: "int \<Rightarrow> jsnum" where
  "millis t = Finite (of_int t)"

definition timeValue :: "int \<Rightarrow> bool" where
  "timeValue t \<longleftrightarrow> \<bar>t\<bar> \<le> 8640000000000000"


section \<open>Cron schedules: \<open>src/cron/types.ts\<close> and \<open>CronService.computeNextRun\<close>\<close>

text \<open>
  Sources: the type \<open>CronSchedule\<close> (in this tree \<open>src/unnamed/part_021\<close>, lines 10 to 13),
  \<open>src/src/cron/service.ts\<close>, lines 215 to 279, and \<open>src/src/tools/cron.ts\<close>, line 181.
\<close>

text \<open>\<open>CronSchedule\<close>: the tagged union on \<open>kind\<close>, with its optional fields.\<close>

datatype CronSchedule =
    At (atMs: jsnum)
  | Every (everyMs: jsnum) (anchorMs: "jsnum option")
  | Cron (expr: string) (tz: "string option")

text \<open>
  \<open>parseNextCron\<close>. The cron-parser library is external: \<open>cronNext expr tz\<close> stands for
  \<open>cronParser.parseExpression(expr, {currentDate, tz}).next().getTime()\<close>, with \<open>None\<close>
  when the library throws. \<open>tz || undefined\<close> turns an empty zone name into an absent
  one. The fallback reads the clock again (\<open>Date.now()\<close> in the \<open>catch\<close>); that reading
  is the argument \<open>later\<close>.
\<close>

definition parseNextCron ::
  "(string \<Rightarrow> string option \<Rightarrow> int option) \<Rightarrow> int \<Rightarrow> string \<Rightarrow> string option \<Rightarrow> jsnum" where
  "parseNextCron cronNext later e z =
     (case cronNext e (if z = Some [] then None else z) of
        Some t \<Rightarrow> millis t
      | None \<Rightarrow> jsAdd (millis later) (Finite 60000))"

text \<open>\<open>computeNextRun\<close>; \<open>now\<close> is the value of \<open>Date.now()\<close> read on entry.\<close>

fun computeNextRun ::
  "(string \<Rightarrow> string option \<Rightarrow> int option) \<Rightarrow> int \<Rightarrow> int \<Rightarrow> CronSchedule \<Rightarrow> jsnum" where
  "computeNextRun cronNext now later (At a) =
     (if jsGt a (millis now) then a else jsAdd (millis now) (Finite 1000))"
| "computeNextRun cronNext now later (Every e anc) =
     (let anchor = (case anc of Some a \<Rightarrow> a | None \<Rightarrow> millis now);
          elapsed = jsSub (millis now) anchor;
          periods = mathFloor (jsDiv elapsed e)
      in jsAdd anchor (jsMul (jsAdd periods (Finite 1)) e))"
| "computeNextRun cronNext now later (Cron ex z) = parseNextCron cronNext later ex z"

text \<open>The delay \<open>scheduleJob\<close> hands to \<open>setTimeout\<close>: \<open>Math.max(0, nextRun - Date.now())\<close>.\<close>

definition delayOf :: "jsnum \<Rightarrow> int \<Rightarrow> jsnum" where
  "delayOf nextRun nowArm = mathMax (Finite 0) (jsSub nextRun (millis nowArm))"


text \<open>
  The specification's definition of the next run of an \<open>every\<close> schedule, in exact
  arithmetic: with \<open>anchor = anchorMs ?? now\<close>,
  \<open>anchor + (floor((now - anchor) / everyMs) + 1) * everyMs\<close>.
\<close>

definition specEvery :: "real \<Rightarrow> real \<Rightarrow> real option \<Rightarrow> real" where
  "specEvery now e anc =
     (let anchor = (case anc of Some a \<Rightarrow> a | None \<Rightarrow> now)
      in anchor + (of_int \<lfloor>(now - anchor) / e\<rfloor> + 1) * e)"

text \<open>
  Where that arithmetic is exact on doubles: a non-zero whole period, and whole
  readings with \<open>\<bar>now - anchor\<bar> + \<bar>everyMs\<bar>\<close> and \<open>\<bar>now\<bar> + \<bar>everyMs\<bar>\<close> below \<open>2 ^ 53\<close>.
\<close>

definition exactRange :: "int \<Rightarrow> int \<Rightarrow> int option \<Rightarrow> bool" where
  "exactRange now e anc =
     (let anchor = (case anc of Some a \<Rightarrow> a | None \<Rightarrow> now)
      in e \<noteq> 0 \<and> \<bar>now - anchor\<bar> + \<bar>e\<bar> < 2 ^ 53 \<and> \<bar>now\<bar> + \<bar>e\<bar> < 2 ^ 53)"


section \<open>The message bus: \<open>src/bus.ts\<close>\<close>

text \<open>Source: \<open>src/src/bus.ts\<close>.\<close>

record OutboundMessage =
  channel :: string
  chatId :: string
  content :: string

text \<open>\<open>InboundMessage\<close> has the same three fields and an optional thread.\<close>

record InboundMessage = OutboundMessage +
  threadId :: "string option"

text \<open>
  The inbound half of \<open>MessageBus\<close>. A resolver is the \<open>resolve\<close> function of the
  promise a waiting \<open>consumeInbound\<close> call returned; the model names it by the number
  of the waiting call.
\<close>

record MessageBus =
  queue :: "InboundMessage list"
  resolvers :: "nat list"

definition newBus :: MessageBus where
  "newBus = \<lparr>queue = [], resolvers = []\<rparr>"

text \<open>
  \<open>publishInbound\<close>: the first component is the resolver that was called with the
  message, if one was waiting.
\<close>

definition publishInbound :: "InboundMessage \<Rightarrow> MessageBus \<Rightarrow> (nat \<times> InboundMessage) option \<times> MessageBus" where
  "publishInbound msg b =
     (case resolvers b of
        r # rs \<Rightarrow> (Some (r, msg), b\<lparr>resolvers := rs\<rparr>)
      | [] \<Rightarrow> (None, b\<lparr>queue := queue b @ [msg]\<rparr>))"

text \<open>
  \<open>consumeInbound\<close>, called by consumer \<open>c\<close>: \<open>Some m\<close> is a promise already resolved
  with \<open>m\<close>, \<open>None\<close> a pending promise whose resolver has been pushed.
\<close>

definition consumeInbound :: "nat \<Rightarrow> MessageBus \<Rightarrow> InboundMessage option \<times> MessageBus" where
  "consumeInbound c b =
     (case queue b of
        m # ms \<Rightarrow> (Some m, b\<lparr>queue := ms\<rparr>)
      | [] \<Rightarrow> (None, b\<lparr>resolvers := resolvers b @ [c]\<rparr>))"

text \<open>Publishing a list of messages one after the other.\<close>

fun publishAll :: "InboundMessage list \<Rightarrow> MessageBus \<Rightarrow> MessageBus" where
  "publishAll [] b = b"
| "publishAll (m # ms) b = publishAll ms (snd (publishInbound m b))"

text \<open>The consumers \<open>cs\<close> call \<open>consumeInbound\<close> in turn; the results are kept in call order.\<close>

fun consumeAll :: "nat list \<Rightarrow> MessageBus \<Rightarrow> InboundMessage option list \<times> MessageBus" where
  "consumeAll [] b = ([], b)"
| "consumeAll (c # cs) b =
     (let (r, b') = consumeInbound c b; (rs, b'') = consumeAll cs b' in (r # rs, b''))"

text \<open>
  Any interleaving of the two calls. The trace records who received what: \<open>calls\<close>
  counts the \<open>consumeInbound\<close> calls made so far (the next consumer's number) and
  \<open>received\<close> lists every pair of a consumer and the message its promise resolved with.
\<close>

datatype busOp = Publish InboundMessage | Consume

record busTrace =
  bus :: MessageBus
  calls :: nat
  received :: "(nat \<times> InboundMessage) list"

definition busStep :: "busTrace \<Rightarrow> busOp \<Rightarrow> busTrace" where
  "busStep t oper =
     (case oper of
        Publish m \<Rightarrow>
          (case publishInbound m (bus t) of
             (Some d, b') \<Rightarrow> t\<lparr>bus := b', received := received t @ [d]\<rparr>
           | (None, b') \<Rightarrow> t\<lparr>bus := b'\<rparr>)
      | Consume \<Rightarrow>
          (case consumeInbound (calls t) (bus t) of
             (Some m, b') \<Rightarrow> t\<lparr>bus := b', calls := Suc (calls t), received := received t @ [(calls t, m)]\<rparr>
           | (None, b') \<Rightarrow> t\<lparr>bus := b', calls := Suc (calls t)\<rparr>))"

definition busRun :: "busOp list \<Rightarrow> busTrace" where
  "busRun ops = foldl busStep \<lparr>bus = newBus, calls = 0, received = []\<rparr> ops"

text \<open>The messages a list of calls publishes, in order.\<close>

fun published :: "busOp list \<Rightarrow> InboundMessage list" where
  "published [] = []"
| "published (Publish m # ops) = m # published ops"
| "published (Consume # ops) = published ops"


section \<open>Strings\<close>

text \<open>
  A JavaScript string is a sequence of code units; the model takes the units from the
  8-bit range of \<open>char\<close> (Latin-1). \<open>trim\<close> removes the white space and line
  terminators of that range from both ends; \<open>toLowerCase\<close> maps the upper-case letters
  of that range to their lower-case partners.
\<close>

definition isWhiteSpace :: "char \<Rightarrow> bool" where
  "isWhiteSpace c = (of_char c \<in> {9, 10, 11, 12, 13, 32, 160 :: nat})"

definition trim :: "string \<Rightarrow> string" where
  "trim s = rev (dropWhile isWhiteSpace (rev (dropWhile isWhiteSpace s)))"

definition lowerChar :: "char \<Rightarrow> char" where
  "lowerChar c =
     (let n = (of_char c :: nat)
      in if (65 \<le> n \<and> n \<le> 90) \<or> (192 \<le> n \<and> n \<le> 222 \<and> n \<noteq> 215) then char_of (n + 32) else c)"

definition toLowerCase :: "string \<Rightarrow> string" where
  "toLowerCase s = map lowerChar s"

text \<open>
  \<open>s.indexOf(pat)\<close>: the first position at which \<open>pat\<close> occurs in \<open>s\<close>; \<open>None\<close> is
  the result \<open>-1\<close>.
\<close>

fun indexOf :: "string \<Rightarrow> string \<Rightarrow> nat option" where
  "indexOf pat [] = (if pat = [] then Some 0 else None)"
| "indexOf pat (c # cs) =
     (if take (length pat) (c # cs) = pat then Some 0 else map_option Suc (indexOf pat cs))"

text \<open>Decimal notation of an integer, as a template literal prints it.\<close>

fun showNat :: "nat \<Rightarrow> string" where
  "showNat n = (if n < 10 then [char_of (48 + n)] else showNat (n div 10) @ [char_of (48 + n mod 10)])"

definition showInt :: "int \<Rightarrow> string" where
  "showInt i = (if i < 0 then CHR ''-'' # showNat (nat (- i)) else showNat (nat i))"

text \<open>\<open>Math.round\<close>: the nearest integer, halves upwards.\<close>

definition mathRound :: "real \<Rightarrow> int" where
  "mathRound x = \<lfloor>x + 1 / 2\<rfloor>"


section \<open>Session keys: \<open>src/session-key.ts\<close>\<close>

text \<open>Source: in this tree \<open>src/unnamed/part_016\<close>.\<close>

record SessionKeyParts =
  channel_k :: string
  chatId_k :: string
  threadId_k :: "string option"

text \<open>The character class \<open>[a-z0-9_-]\<close> of the pattern in \<open>normalize\<close>.\<close>

definition keyChar :: "char \<Rightarrow> bool" where
  "keyChar c =
     (let n = (of_char c :: nat)
      in (97 \<le> n \<and> n \<le> 122) \<or> (48 \<le> n \<and> n \<le> 57) \<or> c = CHR ''_'' \<or> c = CHR ''-'')"

definition normalizeStr :: "string \<Rightarrow> string" where
  "normalizeStr v = map (\<lambda>c. if keyChar c then c else CHR ''-'') (toLowerCase (trim v))"

text \<open>\<open>if (parts.threadId)\<close>: an absent and an empty thread id are both falsy.\<close>

definition buildSessionKey :: "SessionKeyParts \<Rightarrow> string" where
  "buildSessionKey parts =
     (let base = normalizeStr (channel_k parts) @ '':'' @ normalizeStr (chatId_k parts)
      in case threadId_k parts of
           Some t \<Rightarrow> (if t \<noteq> [] then base @ '':thread:'' @ normalizeStr t else base)
         | None \<Rightarrow> base)"

definition parseBaseKey :: "string \<Rightarrow> (string \<times> string) option" where
  "parseBaseKey key =
     (case indexOf '':'' key of
        None \<Rightarrow> None
      | Some idx \<Rightarrow>
          if idx \<le> 0 then None
          else let ch = take idx key; chat = drop (idx + 1) key
               in if ch = [] \<or> chat = [] then None else Some (ch, chat))"

definition parseSessionKey :: "string \<Rightarrow> SessionKeyParts option" where
  "parseSessionKey sessionKey =
     (let trimmed = toLowerCase (trim sessionKey)
      in if trimmed = [] then None
         else case indexOf '':thread:'' trimmed of
                Some threadIdx \<Rightarrow>
                  if threadIdx > 0 then
                    (let base = take threadIdx trimmed; thread = drop (threadIdx + 8) trimmed
                     in case parseBaseKey base of
                          None \<Rightarrow> None
                        | Some (ch, chat) \<Rightarrow>
                            Some \<lparr>channel_k = ch, chatId_k = chat, threadId_k = Some thread\<rparr>)
                  else map_option (\<lambda>(ch, chat). \<lparr>channel_k = ch, chatId_k = chat, threadId_k = None\<rparr>)
                         (parseBaseKey trimmed)
              | None \<Rightarrow> map_option (\<lambda>(ch, chat). \<lparr>channel_k = ch, chatId_k = chat, threadId_k = None\<rparr>)
                         (parseBaseKey trimmed))"

text \<open>The componentwise normalisation of the parts, the thread kept when it is truthy.\<close>

definition normalizeParts :: "SessionKeyParts \<Rightarrow> SessionKeyParts" where
  "normalizeParts p =
     \<lparr>channel_k = normalizeStr (channel_k p), chatId_k = normalizeStr (chatId_k p),
      threadId_k = (case threadId_k p of
                      Some t \<Rightarrow> (if t \<noteq> [] then Some (normalizeStr t) else None)
                    | None \<Rightarrow> None)\<rparr>"


section \<open>Subagents: \<open>src/subagent.ts\<close>\<close>

text \<open>Source: \<open>src/src/subagent.ts\<close>, the types and lines 163 to 181 and 291 to 333.\<close>

datatype SubagentStatus = Running | Completed | Failed

record Requester =
  channel_r :: string
  chatId_r :: string

record SubagentStats =
  runtimeMs :: int
  tokensIn :: "int option"
  tokensOut :: "int option"

text \<open>
  \<open>abortController\<close> is \<open>None\<close> when the subagent was spawned without a timeout;
  otherwise it holds the \<open>aborted\<close> flag of the controller's signal.
\<close>

record Subagent =
  id_sa :: string
  task :: string
  label :: "string option"
  status :: SubagentStatus
  createdAt :: int
  completedAt :: "int option"
  result :: "string option"
  error :: "string option"
  sessionKey :: string
  requester :: Requester
  stats :: "SubagentStats option"
  abortController :: "bool option"

text \<open>
  The manager's map of subagents, and the messages it has handed to
  \<open>bus.publishOutbound\<close>, oldest first.
\<close>

record SubagentManager =
  subagents :: "string \<rightharpoonup> Subagent"
  outbound :: "OutboundMessage list"

definition newline :: string where
  "newline = [CHR 0x0A]"

text \<open>A template literal prints an absent value as \<open>undefined\<close>.\<close>

definition interpolate :: "string option \<Rightarrow> string" where
  "interpolate v = (case v of Some s \<Rightarrow> s | None \<Rightarrow> ''undefined'')"

text \<open>
  The message \<open>announceResult\<close> publishes. In the branch that uses \<open>%\<close> the runtime
  is positive, where the remainder of JavaScript and \<open>mod\<close> agree.
\<close>

definition announceResult :: "Subagent \<Rightarrow> string \<Rightarrow> OutboundMessage" where
  "announceResult subagent outcome =
     (let lbl = (case label subagent of
                   Some l \<Rightarrow> (if l \<noteq> [] then '' \"'' @ l @ ''\"'' else [])
                 | None \<Rightarrow> []);
          rt = (case stats subagent of Some st \<Rightarrow> runtimeMs st | None \<Rightarrow> 0);
          runtimeStr =
            (if rt > 60000
             then showInt (mathRound (real_of_int rt / 60000)) @ ''m'' @
                  showInt (mathRound (real_of_int (rt mod 60000) / 1000)) @ ''s''
             else showInt (mathRound (real_of_int rt / 1000)) @ ''s'');
          statsLine = ''runtime '' @ runtimeStr @ '' | session '' @ sessionKey subagent;
          header = ''[Subagent '' @ id_sa subagent @ lbl @ '' '' @ outcome @ '']'';
          body =
            (case status subagent of
               Completed \<Rightarrow>
                 header @ newline @ newline @ ''Findings:'' @ newline @
                 interpolate (result subagent) @ newline @ newline @ ''Stats: '' @ statsLine
             | Failed \<Rightarrow>
                 header @ newline @ newline @ ''Error: '' @ interpolate (error subagent) @
                 newline @ newline @ ''Stats: '' @ statsLine
             | Running \<Rightarrow>
                 header @ newline @ newline @ ''Stats: '' @ statsLine)
      in \<lparr>channel = channel_r (requester subagent), chatId = chatId_r (requester subagent),
          content = body\<rparr>)"

text \<open>
  \<open>stop(id)\<close>, with \<open>now\<close> the value \<open>Date.now()\<close> returns. The subagent object is
  the one stored in the map, so the assignments show in the map.
\<close>

definition stop :: "int \<Rightarrow> string \<Rightarrow> SubagentManager \<Rightarrow> bool \<times> SubagentManager" where
  "stop now i mgr =
     (case subagents mgr i of
        None \<Rightarrow> (False, mgr)
      | Some subagent \<Rightarrow>
          if status subagent \<noteq> Running then (False, mgr)
          else let stopped = subagent
                     \<lparr>abortController := map_option (\<lambda>_. True) (abortController subagent),
                      status := Completed,
                      completedAt := Some now,
                      result := Some ''Stopped by request'',
                      stats := Some \<lparr>runtimeMs = now - createdAt subagent,
                                     tokensIn = None, tokensOut = None\<rparr>\<rparr>
               in (True, mgr\<lparr>subagents := (subagents mgr)(i \<mapsto> stopped),
                             outbound := outbound mgr @ [announceResult stopped ''stopped'']\<rparr>))"


section \<open>Memory search: \<open>src/memory/types.ts\<close> and \<open>FileMemoryProvider.search\<close>\<close>

text \<open>
  Sources: \<open>src/src/memory/types.ts\<close> and the file provider (in this tree the second
  part of \<open>src/unnamed/part_021\<close>, lines 115 to 179 and 263 to 283).
\<close>

text \<open>
  Scores are JavaScript numbers; the model computes them over the reals. The fields
  \<open>source\<close>, \<open>embedding\<close> and \<open>metadata\<close> of an entry play no part in a search.
\<close>

record MemoryEntry =
  id_m :: string
  createdAt_m :: int
  content_m :: string
  importance :: real
  tags :: "string list option"
  sessionId :: "string option"

record Weights =
  recency_w :: "real option"
  importance_w :: "real option"
  relevance_w :: "real option"

record MemorySearchOptions =
  query :: "string option"
  tags_o :: "string list option"
  sessionId_o :: "string option"
  maxResults :: "int option"
  minScore :: "real option"
  weights :: "Weights option"

record Scores =
  recency :: real
  importance_s :: real
  relevance :: real

record MemorySearchResult =
  entry :: MemoryEntry
  score :: real
  scores :: Scores

text \<open>An optional string in a condition: absent and empty are both falsy.\<close>

definition truthy :: "string option \<Rightarrow> bool" where
  "truthy v = (case v of Some s \<Rightarrow> s \<noteq> [] | None \<Rightarrow> False)"

text \<open>
  \<open>split(/\s+/)\<close> followed by the filter on length: the pieces between runs of white
  space. The empty pieces the split can produce at either end never pass the length
  filter, so the model does not produce them.
\<close>

fun splitWhite :: "string \<Rightarrow> string \<Rightarrow> string list" where
  "splitWhite cur [] = (if cur = [] then [] else [cur])"
| "splitWhite cur (c # cs) =
     (if isWhiteSpace c then (if cur = [] then splitWhite [] cs else cur # splitWhite [] cs)
      else splitWhite (cur @ [c]) cs)"

definition computeRelevance :: "string \<Rightarrow> string \<Rightarrow> real" where
  "computeRelevance cont q =
     (let contentLower = toLowerCase cont;
          queryTerms = filter (\<lambda>t. length t > 2) (splitWhite [] (toLowerCase q))
      in if length queryTerms = 0 then 1 / 2
         else real (length (filter (\<lambda>t. indexOf t contentLower \<noteq> None) queryTerms))
              / real (length queryTerms))"

text \<open>The session filter of \<open>search\<close>: global entries and those of the given session.\<close>

definition sessionFilter :: "MemorySearchOptions \<Rightarrow> MemoryEntry list \<Rightarrow> MemoryEntry list" where
  "sessionFilter opts entries =
     (if truthy (sessionId_o opts)
      then filter (\<lambda>e. \<not> truthy (sessionId e) \<or> sessionId e = sessionId_o opts) entries
      else entries)"

text \<open>The tag filter: an entry passes when one of its tags, lower-cased, is in the set.\<close>

definition tagFilter :: "MemorySearchOptions \<Rightarrow> MemoryEntry list \<Rightarrow> MemoryEntry list" where
  "tagFilter opts entries =
     (case tags_o opts of
        None \<Rightarrow> entries
      | Some ts \<Rightarrow>
          if length ts > 0
          then filter (\<lambda>e. case tags e of
                             None \<Rightarrow> False
                           | Some et \<Rightarrow> list_ex (\<lambda>t. toLowerCase t \<in> set (map toLowerCase ts)) et)
                 entries
          else entries)"

text \<open>The score of one entry at time \<open>now\<close>.\<close>

definition scoreEntry :: "int \<Rightarrow> MemorySearchOptions \<Rightarrow> MemoryEntry \<Rightarrow> MemorySearchResult" where
  "scoreEntry now opts e =
     (let w = (case weights opts of Some x \<Rightarrow> x
               | None \<Rightarrow> \<lparr>recency_w = None, importance_w = None, relevance_w = None\<rparr>);
          wRecency = (case recency_w w of Some x \<Rightarrow> x | None \<Rightarrow> 3 / 10);
          wImportance = (case importance_w w of Some x \<Rightarrow> x | None \<Rightarrow> 2 / 10);
          wRelevance = (case relevance_w w of Some x \<Rightarrow> x | None \<Rightarrow> 5 / 10);
          maxAge = 7 * 24 * 60 * 60 * 1000;
          age = now - createdAt_m e;
          recencyScore = exp (- real_of_int age / maxAge);
          importanceScore = importance e;
          relevanceScore = (case query opts of
                              Some q \<Rightarrow> (if q \<noteq> [] then computeRelevance (content_m e) q else 1 / 2)
                            | None \<Rightarrow> 1 / 2)
      in \<lparr>entry = e,
          score = wRecency * recencyScore + wImportance * importanceScore + wRelevance * relevanceScore,
          scores = \<lparr>recency = recencyScore, importance_s = importanceScore,
                    relevance = relevanceScore\<rparr>\<rparr>)"

text \<open>\<open>xs.slice(0, n)\<close>: a negative \<open>n\<close> counts from the end.\<close>

definition sliceTo :: "int \<Rightarrow> 'a list \<Rightarrow> 'a list" where
  "sliceTo n xs = (if 0 \<le> n then take (nat n) xs else take (length xs - nat (- n)) xs)"

text \<open>The scored entries that reach the minimum score, before sorting and cutting.\<close>

definition candidates :: "int \<Rightarrow> MemorySearchOptions \<Rightarrow> MemoryEntry list \<Rightarrow> MemorySearchResult list" where
  "candidates now opts entries =
     (let minS = (case minScore opts of Some m \<Rightarrow> m | None \<Rightarrow> 0);
          filtered = tagFilter opts (sessionFilter opts entries);
          scored = map (scoreEntry now opts) filtered
      in filter (\<lambda>r. score r \<ge> minS) scored)"

text \<open>
  \<open>search\<close> on the loaded entries: the candidates, sorted by descending score (the
  sort is stable), cut to \<open>maxResults\<close>.
\<close>

definition search :: "int \<Rightarrow> MemorySearchOptions \<Rightarrow> MemoryEntry list \<Rightarrow> MemorySearchResult list" where
  "search now opts entries =
     (let maxR = (case maxResults opts of Some m \<Rightarrow> m | None \<Rightarrow> 10)
      in sliceTo maxR (sort_key (\<lambda>r. - score r) (candidates now opts entries)))"


section \<open>Supervisor reconciliation: \<open>LocalBackend.loadExistingAgents\<close>\<close>

text \<open>Source: \<open>src/src/sdk/local-backend.ts\<close>, lines 51 to 123.\<close>

datatype AgentStatus = AgentRunning | AgentStopped

record AgentInfo =
  id_a :: string
  status_a :: AgentStatus
  workspace :: string
  sessionDir :: string
  memoryDir :: string
  createdAt_a :: int
  port :: "int option"
  pid :: "int option"

text \<open>
  What the loop reads of one agent directory: the parsed \<open>meta.json\<close> (\<open>None\<close> when
  the file is missing or is not JSON) and the text of \<open>server.pid\<close> (\<open>None\<close> when the
  file cannot be read). A \<open>meta.json\<close> that parses is taken to hold the metadata object
  that \<open>spawn\<close> writes.
\<close>

record Meta =
  createdAt_meta :: int
  port_meta :: "int option"

record AgentDir =
  metaFile :: "Meta option"
  pidFile :: "string option"

text \<open>
  The two probes. \<open>alive p\<close> says that \<open>process.kill(p, 0)\<close> returns without
  throwing. \<open>health\<close> is the outcome of \<open>fetch\<close> on \<open>/health\<close> at the port: a response
  with \<open>ok\<close>, a response without, or a rejected promise.
\<close>

datatype HealthProbe = HealthOk | HealthNotOk | HealthUnreachable

record Probes =
  alive :: "int \<Rightarrow> bool"
  health :: "int option \<Rightarrow> HealthProbe"

definition isDigit :: "char \<Rightarrow> bool" where
  "isDigit c = (48 \<le> (of_char c :: nat) \<and> (of_char c :: nat) \<le> 57)"

text \<open>
  \<open>parseInt(s, 10)\<close>: leading white space, an optional sign, then the longest run of
  digits; \<open>None\<close> is \<open>NaN\<close>.
\<close>

definition parseInt10 :: "string \<Rightarrow> int option" where
  "parseInt10 s =
     (let t = dropWhile isWhiteSpace s;
          neg = (t \<noteq> [] \<and> hd t = CHR ''-'');
          u = (if t \<noteq> [] \<and> (hd t = CHR ''-'' \<or> hd t = CHR ''+'') then tl t else t);
          ds = takeWhile isDigit u
      in if ds = [] then None
         else let n = int (foldl (\<lambda>a c. 10 * a + (of_char c - 48)) 0 ds)
              in Some (if neg then - n else n))"

text \<open>
  The body of the inner \<open>try\<close>: the result is \<open>isRunning\<close>, \<open>pid\<close>, \<open>port\<close> and the
  directory as it is left. Reading the pid file, and \<open>process.kill\<close> (which also
  throws on \<open>NaN\<close>), can throw; the handler then unlinks the pid file. A failed
  health probe is caught inside and only clears \<open>isRunning\<close>.
\<close>

definition checkServer :: "Probes \<Rightarrow> Meta \<Rightarrow> AgentDir \<Rightarrow> bool \<times> int option \<times> int option \<times> AgentDir" where
  "checkServer env meta dir =
     (case pidFile dir of
        None \<Rightarrow> (False, None, None, dir\<lparr>pidFile := None\<rparr>)
      | Some pidStr \<Rightarrow>
          (case parseInt10 pidStr of
             None \<Rightarrow> (False, None, port_meta meta, dir\<lparr>pidFile := None\<rparr>)
           | Some p \<Rightarrow>
               if \<not> alive env p then (False, Some p, port_meta meta, dir\<lparr>pidFile := None\<rparr>)
               else (case health env (port_meta meta) of
                       HealthOk \<Rightarrow> (True, Some p, port_meta meta, dir)
                     | HealthNotOk \<Rightarrow> (False, Some p, port_meta meta, dir)
                     | HealthUnreachable \<Rightarrow> (False, Some p, port_meta meta, dir))))"

text \<open>
  One round of the loop for the directory \<open>agentId\<close> under \<open>agentsDir\<close>: the record
  entered into the map of agents (none when there is no valid metadata), the
  directory afterwards, and \<open>nextPort\<close>.
\<close>

definition reconcileAgent ::
  "Probes \<Rightarrow> string \<Rightarrow> string \<Rightarrow> AgentDir \<Rightarrow> int \<Rightarrow> AgentInfo option \<times> AgentDir \<times> int" where
  "reconcileAgent env agentsDir agentId dir nextPort =
     (case metaFile dir of
        None \<Rightarrow> (None, dir, nextPort)
      | Some meta \<Rightarrow>
          (let agentDir = agentsDir @ ''/'' @ agentId;
               (isRunning, p, prt, dir') = checkServer env meta dir;
               info = \<lparr>id_a = agentId,
                       status_a = (if isRunning then AgentRunning else AgentStopped),
                       workspace = agentDir @ ''/workspace'',
                       sessionDir = agentDir @ ''/sessions'',
                       memoryDir = agentDir @ ''/memory'',
                       createdAt_a = createdAt_meta meta,
                       port = (if isRunning then prt else None),
                       pid = (if isRunning then p else None)\<rparr>;
               nextPort' = (case prt of
                              Some q \<Rightarrow> (if isRunning \<and> q \<noteq> 0 then max nextPort (q + 1) else nextPort)
                            | None \<Rightarrow> nextPort)
           in (Some info, dir', nextPort')))"

text \<open>
  The loop over the directory listing. An entry that is not a directory is skipped;
  the state carried along is the map of agents, the directories and \<open>nextPort\<close>.
\<close>

record BackendState =
  agents :: "string \<rightharpoonup> AgentInfo"
  dirs :: "string \<rightharpoonup> AgentDir"
  nextPort :: int

fun loadExistingAgents :: "Probes \<Rightarrow> string \<Rightarrow> string list \<Rightarrow> BackendState \<Rightarrow> BackendState" where
  "loadExistingAgents env agentsDir [] st = st"
| "loadExistingAgents env agentsDir (name # names) st =
     (case dirs st name of
        None \<Rightarrow> loadExistingAgents env agentsDir names st
      | Some dir \<Rightarrow>
          (let (info, dir', np) = reconcileAgent env agentsDir name dir (nextPort st)
           in loadExistingAgents env agentsDir names
                (st\<lparr>agents := (case info of Some i \<Rightarrow> (agents st)(name \<mapsto> i) | None \<Rightarrow> agents st),
                    dirs := (dirs st)(name \<mapsto> dir'),
                    nextPort := np\<rparr>)))"


text \<open>A record marked stopped, its port and pid cleared.\<close>

definition isStopped :: "AgentInfo \<Rightarrow> bool" where
  "isStopped info \<longleftrightarrow> status_a info = AgentStopped \<and> port info = None \<and> pid info = None"


section \<open>The cron service: \<open>src/cron/service.ts\<close>\<close>

text \<open>
  Sources: \<open>src/src/cron/service.ts\<close>, lines 59 to 66 and 148 to 213, with the job
  types of \<open>src/unnamed/part_021\<close>.
\<close>

datatype CronPayload =
    SystemEvent (text_p: string)
  | AgentTurn (message: string) (deliver: "bool option") (channel_p: "string option")
      (chatId_p: "string option")

datatype RunStatus = StatusOk | StatusError | StatusSkipped

record CronJobState =
  nextRunAtMs :: "jsnum option"
  runningAtMs :: "jsnum option"
  lastRunAtMs :: "jsnum option"
  lastStatus :: "RunStatus option"
  lastError :: "string option"
  lastDurationMs :: "jsnum option"

record CronJob =
  id_j :: string
  name_j :: string
  description :: "string option"
  enabled :: bool
  deleteAfterRun :: "bool option"
  createdAtMs :: jsnum
  updatedAtMs :: jsnum
  schedule :: CronSchedule
  payload :: CronPayload
  state_j :: CronJobState

datatype EventType = RunEvent | ErrorEvent | SkipEvent

record CronEvent =
  type_e :: EventType
  job_e :: CronJob
  result_e :: "string option"
  error_e :: "string option"

text \<open>
  The state of a \<open>CronService\<close>: the job list, the armed timers (job id to the delay
  given to \<open>setTimeout\<close>), the \<open>running\<close> flag, the job list last written to the store
  file, and the events handed to \<open>onEvent\<close>. Writing the store and notifying the
  observer are taken not to throw.
\<close>

record CronService =
  jobs :: "CronJob list"
  timers :: "string \<rightharpoonup> jsnum"
  running :: bool
  stored :: "CronJob list option"
  events :: "CronEvent list"

text \<open>
  What one execution reads from outside: the successive values of \<open>Date.now()\<close>
  (on entry to \<open>run\<close>, at the start and at the end of the execution, in
  \<open>computeNextRun\<close>, in the fallback of \<open>parseNextCron\<close>, and in \<open>scheduleJob\<close>), the
  cron parser, and how the \<open>executeJob\<close> callback ends.
\<close>

datatype JobOutcome = Returned "string option" | Threw string

record RunEnv =
  dueNow :: int
  startMs :: int
  endMs :: int
  nextNow :: int
  nextLater :: int
  armNow :: int
  cronNext_env :: "string \<Rightarrow> string option \<Rightarrow> int option"
  callback :: JobOutcome

definition findJob :: "string \<Rightarrow> CronJob list \<Rightarrow> CronJob option" where
  "findJob jid js = find (\<lambda>j. id_j j = jid) js"

text \<open>Assignments to the found job object: they change the first job with that id.\<close>

fun updateJob :: "string \<Rightarrow> (CronJob \<Rightarrow> CronJob) \<Rightarrow> CronJob list \<Rightarrow> CronJob list" where
  "updateJob jid f [] = []"
| "updateJob jid f (j # js) = (if id_j j = jid then f j # js else j # updateJob jid f js)"

text \<open>\<open>findIndex\<close> on the id followed by \<open>splice(idx, 1)\<close> when the index is not negative.\<close>

fun spliceJob :: "string \<Rightarrow> CronJob list \<Rightarrow> CronJob list" where
  "spliceJob jid [] = []"
| "spliceJob jid (j # js) = (if id_j j = jid then js else j # spliceJob jid js)"

definition cancelJobTimer :: "string \<Rightarrow> CronService \<Rightarrow> CronService" where
  "cancelJobTimer jid svc = svc\<lparr>timers := (timers svc)(jid := None)\<rparr>"

definition scheduleJob :: "RunEnv \<Rightarrow> CronJob \<Rightarrow> CronService \<Rightarrow> CronService" where
  "scheduleJob env job svc =
     (let svc1 = cancelJobTimer (id_j job) svc;
          nextRun = (case nextRunAtMs (state_j job) of
                       Some n \<Rightarrow> n
                     | None \<Rightarrow> computeNextRun (cronNext_env env) (nextNow env) (nextLater env) (schedule job))
      in svc1\<lparr>timers := (timers svc1)(id_j job \<mapsto> delayOf nextRun (armNow env))\<rparr>)"

definition save :: "CronService \<Rightarrow> CronService" where
  "save svc = svc\<lparr>stored := Some (jobs svc)\<rparr>"

text \<open>
  \<open>executeJob\<close> on the job object \<open>job\<close> of the list. The result is \<open>Inr\<close> the value
  returned or \<open>Inl\<close> the message of the error thrown again.
\<close>

definition executeJob :: "RunEnv \<Rightarrow> CronJob \<Rightarrow> CronService \<Rightarrow> (string + string option) \<times> CronService" where
  "executeJob env job svc =
     (let next = computeNextRun (cronNext_env env) (nextNow env) (nextLater env) (schedule job)
      in case callback env of
           Returned res \<Rightarrow>
             (let job' = job\<lparr>state_j := (state_j job)
                            \<lparr>lastRunAtMs := Some (millis (startMs env)),
                             lastDurationMs := Some (jsSub (millis (endMs env)) (millis (startMs env))),
                             lastStatus := Some StatusOk,
                             lastError := None,
                             runningAtMs := None,
                             nextRunAtMs := Some next\<rparr>\<rparr>;
                  svc1 = svc\<lparr>jobs := updateJob (id_j job) (\<lambda>_. job') (jobs svc),
                             events := events svc @
                               [\<lparr>type_e = RunEvent, job_e = job', result_e = res, error_e = None\<rparr>]\<rparr>;
                  svc2 = (if deleteAfterRun job = Some True
                          then cancelJobTimer (id_j job) (svc1\<lparr>jobs := spliceJob (id_j job) (jobs svc1)\<rparr>)
                          else if running svc1 \<and> enabled job then scheduleJob env job' svc1
                          else svc1)
              in (Inr res, save svc2))
         | Threw msg \<Rightarrow>
             (let job' = job\<lparr>state_j := (state_j job)
                            \<lparr>lastRunAtMs := Some (millis (startMs env)),
                             lastDurationMs := Some (jsSub (millis (endMs env)) (millis (startMs env))),
                             lastStatus := Some StatusError,
                             lastError := Some msg,
                             runningAtMs := None,
                             nextRunAtMs := Some next\<rparr>\<rparr>;
                  svc1 = svc\<lparr>jobs := updateJob (id_j job) (\<lambda>_. job') (jobs svc),
                             events := events svc @
                               [\<lparr>type_e = ErrorEvent, job_e = job', result_e = None, error_e = Some msg\<rparr>]\<rparr>;
                  svc2 = (if running svc1 \<and> enabled job then scheduleJob env job' svc1 else svc1)
              in (Inl msg, save svc2)))"

datatype RunMode = Due | Force

text \<open>
  \<open>job.state.nextRunAtMs && job.state.nextRunAtMs > Date.now()\<close> as a condition:
  \<open>undefined\<close> is falsy as well.
\<close>

definition laterThan :: "jsnum option \<Rightarrow> int \<Rightarrow> bool" where
  "laterThan n t = (case n of Some v \<Rightarrow> truthyNum v \<and> jsGt v (millis t) | None \<Rightarrow> False)"

text \<open>\<open>run(id, mode)\<close>; an unknown id throws.\<close>

definition run :: "RunEnv \<Rightarrow> string \<Rightarrow> RunMode \<Rightarrow> CronService \<Rightarrow> (string + string option) \<times> CronService" where
  "run env jid mode svc =
     (case findJob jid (jobs svc) of
        None \<Rightarrow> (Inl (''Job not found: '' @ jid), svc)
      | Some job \<Rightarrow>
          if mode = Due \<and> laterThan (nextRunAtMs (state_j job)) (dueNow env) then (Inr None, svc)
          else executeJob env job svc)"

text \<open>A timer that fires removes itself from the map and runs its job with \<open>force\<close>.\<close>

definition timerFires :: "RunEnv \<Rightarrow> string \<Rightarrow> CronService \<Rightarrow> (string + string option) \<times> CronService" where
  "timerFires env jid svc = run env jid Force (svc\<lparr>timers := (timers svc)(jid := None)\<rparr>)"

text \<open>\<open>list(opts)\<close>, the argument being \<open>opts?.includeDisabled\<close> as a condition.\<close>

definition listJobs :: "bool \<Rightarrow> CronService \<Rightarrow> CronJob list" where
  "listJobs includeDisabled svc = (if includeDisabled then jobs svc else filter enabled (jobs svc))"


section \<open>The session manager: \<open>src/session-manager.ts\<close>\<close>

text \<open>Source: \<open>src/src/session-manager.ts\<close>, lines 26 to 102, 144 to 159 and 178 to 217.\<close>

text \<open>
  A JavaScript \<open>Map\<close> whose iteration order matters is a list of pairs with distinct
  keys: \<open>set\<close> replaces the value of a key in place or appends a new pair, \<open>delete\<close>
  removes the pair, \<open>get\<close> is \<open>map_of\<close>.
\<close>

fun mapSet :: "'k \<Rightarrow> 'v \<Rightarrow> ('k \<times> 'v) list \<Rightarrow> ('k \<times> 'v) list" where
  "mapSet k v [] = [(k, v)]"
| "mapSet k v (p # ps) = (if fst p = k then (k, v) # ps else p # mapSet k v ps)"

definition mapDelete :: "'k \<Rightarrow> ('k \<times> 'v) list \<Rightarrow> ('k \<times> 'v) list" where
  "mapDelete k ps = filter (\<lambda>p. fst p \<noteq> k) ps"

text \<open>
  A \<open>ManagedSession\<close>. The runtime's session object is known by the number of the
  creation that made it. The promise chain \<open>opChain\<close> is not a value of the model:
  code that awaits it is a suspended task below.
\<close>

record ManagedSession =
  session :: nat
  createdAt_s :: int
  lastAccessedAt :: int

text \<open>The promise \<open>createManagedSession\<close> returned: not settled, resolved or rejected.\<close>

datatype Creation = InFlight | Resolved ManagedSession | Rejected

text \<open>
  The calls suspended at an \<open>await\<close>: \<open>getOrCreateByKey\<close> at \<open>await creationPromise\<close>
  (the call that started the creation) or at \<open>await pending\<close> (a call that found it
  started), and \<open>closeSession\<close> at \<open>await managed.opChain\<close> or at the \<open>await\<close> of the
  session's \<open>close()\<close>.
\<close>

datatype Task =
    Creator string nat
  | Waiter string nat
  | ClosingChain string
  | ClosingSession string

text \<open>
  The manager. \<open>hasClose\<close> says whether the runtime's sessions have a \<open>close\<close>
  method. Two fields only observe: \<open>returned\<close> lists, for every call of
  \<open>getOrCreateByKey\<close> that has returned, its key and the session it returned, and
  \<open>closes\<close> counts the calls of \<open>closeSession\<close> that found a session.
\<close>

record SessionManager =
  sessions :: "(string \<times> ManagedSession) list"
  pendingCreations :: "string \<rightharpoonup> nat"
  maxSessions :: nat
  hasClose :: bool
  creations :: "Creation list"
  tasks :: "Task list"
  returned :: "(string \<times> nat) list"
  closes :: nat

definition newSessionManager :: "nat \<Rightarrow> bool \<Rightarrow> SessionManager" where
  "newSessionManager maxS hc =
     \<lparr>sessions = [], pendingCreations = Map.empty, maxSessions = maxS, hasClose = hc,
      creations = [], tasks = [], returned = [], closes = 0\<rparr>"

text \<open>
  \<open>closeSession\<close> up to its first \<open>await\<close>: nothing happens for a key without a
  session; otherwise the call is suspended on the session's chain.
\<close>

definition closeSession :: "string \<Rightarrow> SessionManager \<Rightarrow> SessionManager" where
  "closeSession k sm =
     (case map_of (sessions sm) k of
        None \<Rightarrow> sm
      | Some managed \<Rightarrow> sm\<lparr>tasks := tasks sm @ [ClosingChain k], closes := Suc (closes sm)\<rparr>)"

text \<open>
  The scan of \<open>evictOldest\<close>: the first key, in the order of the map, whose
  \<open>lastAccessedAt\<close> is smallest.
\<close>

fun oldestScan :: "(string \<times> int) option \<Rightarrow> (string \<times> ManagedSession) list \<Rightarrow> (string \<times> int) option" where
  "oldestScan acc [] = acc"
| "oldestScan acc ((k, managed) # rest) =
     (case acc of
        None \<Rightarrow> oldestScan (Some (k, lastAccessedAt managed)) rest
      | Some (k0, t0) \<Rightarrow>
          if lastAccessedAt managed < t0 then oldestScan (Some (k, lastAccessedAt managed)) rest
          else oldestScan acc rest)"

text \<open>\<open>if (oldestKey)\<close>: no key found, and the empty key, close nothing.\<close>

definition evictOldest :: "SessionManager \<Rightarrow> SessionManager" where
  "evictOldest sm =
     (case oldestScan None (sessions sm) of
        None \<Rightarrow> sm
      | Some (oldestKey, t) \<Rightarrow> if oldestKey \<noteq> [] then closeSession oldestKey sm else sm)"

text \<open>
  \<open>getOrCreateByKey\<close> from the call to its return or first \<open>await\<close>, at time \<open>now\<close>.
  Starting a creation appends a promise in flight; its number is the new session's.
\<close>

definition getOrCreateByKey :: "string \<Rightarrow> int \<Rightarrow> SessionManager \<Rightarrow> SessionManager" where
  "getOrCreateByKey k now sm =
     (case map_of (sessions sm) k of
        Some existing \<Rightarrow>
          sm\<lparr>sessions := mapSet k (existing\<lparr>lastAccessedAt := now\<rparr>) (sessions sm),
             returned := returned sm @ [(k, session existing)]\<rparr>
      | None \<Rightarrow>
          (case pendingCreations sm k of
             Some c \<Rightarrow> sm\<lparr>tasks := tasks sm @ [Waiter k c]\<rparr>
           | None \<Rightarrow>
               (let sm1 = (if length (sessions sm) \<ge> maxSessions sm then evictOldest sm else sm);
                    c = length (creations sm1)
                in sm1\<lparr>creations := creations sm1 @ [InFlight],
                       pendingCreations := (pendingCreations sm1)(k \<mapsto> c),
                       tasks := tasks sm1 @ [Creator k c]\<rparr>)))"

text \<open>
  The continuation of a suspended call once what it awaits has settled; \<open>None\<close> when
  it has not. \<open>ok\<close> tells whether the session's \<open>close()\<close> resolved: when it rejects,
  \<open>closeSession\<close> throws before it deletes the key.
\<close>

definition resume :: "Task \<Rightarrow> bool \<Rightarrow> SessionManager \<Rightarrow> SessionManager option" where
  "resume t ok sm =
     (case t of
        Creator k c \<Rightarrow>
          (case creations sm ! c of
             InFlight \<Rightarrow> None
           | Resolved managed \<Rightarrow>
               Some (sm\<lparr>sessions := mapSet k managed (sessions sm),
                        pendingCreations := (pendingCreations sm)(k := None),
                        returned := returned sm @ [(k, session managed)]\<rparr>)
           | Rejected \<Rightarrow> Some (sm\<lparr>pendingCreations := (pendingCreations sm)(k := None)\<rparr>))
      | Waiter k c \<Rightarrow>
          (case creations sm ! c of
             InFlight \<Rightarrow> None
           | Resolved managed \<Rightarrow> Some (sm\<lparr>returned := returned sm @ [(k, session managed)]\<rparr>)
           | Rejected \<Rightarrow> Some sm)
      | ClosingChain k \<Rightarrow>
          (if hasClose sm then Some (sm\<lparr>tasks := tasks sm @ [ClosingSession k]\<rparr>)
           else Some (sm\<lparr>sessions := mapDelete k (sessions sm)\<rparr>))
      | ClosingSession k \<Rightarrow>
          (if ok then Some (sm\<lparr>sessions := mapDelete k (sessions sm)\<rparr>) else Some sm))"

text \<open>
  What can happen next: a call of \<open>getOrCreateByKey\<close> or of \<open>closeSession\<close> (by a
  caller, by the cleanup timer or by \<open>close\<close>), the runtime settling a creation (the
  two times are the readings of \<open>Date.now()\<close> for the new record), or the
  continuation of the suspended call at position \<open>i\<close>.
\<close>

datatype Event =
    CallGetOrCreate string int
  | CallClose string
  | Resolve nat int int
  | Reject nat
  | Resume nat bool

definition step :: "Event \<Rightarrow> SessionManager \<Rightarrow> SessionManager option" where
  "step ev sm =
     (case ev of
        CallGetOrCreate k now \<Rightarrow> Some (getOrCreateByKey k now sm)
      | CallClose k \<Rightarrow> Some (closeSession k sm)
      | Resolve c t1 t2 \<Rightarrow>
          (if c < length (creations sm) \<and> creations sm ! c = InFlight
           then Some (sm\<lparr>creations := (creations sm)
                         [c := Resolved \<lparr>session = c, createdAt_s = t1, lastAccessedAt = t2\<rparr>]\<rparr>)
           else None)
      | Reject c \<Rightarrow>
          (if c < length (creations sm) \<and> creations sm ! c = InFlight
           then Some (sm\<lparr>creations := (creations sm)[c := Rejected]\<rparr>)
           else None)
      | Resume i ok \<Rightarrow>
          (if i < length (tasks sm)
           then resume (tasks sm ! i) ok (sm\<lparr>tasks := take i (tasks sm) @ drop (Suc i) (tasks sm)\<rparr>)
           else None))"

text \<open>A run: the events one after the other, \<open>None\<close> as soon as one cannot happen.\<close>

fun runEvents :: "Event list \<Rightarrow> SessionManager \<Rightarrow> SessionManager option" where
  "runEvents [] sm = Some sm"
| "runEvents (ev # evs) sm = (case step ev sm of None \<Rightarrow> None | Some sm' \<Rightarrow> runEvents evs sm')"

text \<open>The creations in flight for a key: the calls suspended as its creator.\<close>

definition isCreatorOf :: "string \<Rightarrow> Task \<Rightarrow> bool" where
  "isCreatorOf k t = (case t of Creator k' c \<Rightarrow> k' = k | _ \<Rightarrow> False)"

definition creatorsOf :: "string \<Rightarrow> SessionManager \<Rightarrow> Task list" where
  "creatorsOf k sm = filter (isCreatorOf k) (tasks sm)"


text \<open>
  What holds of the manager after every run. A key with a pending creation has no
  session installed, and exactly one suspended call is the creator of that
  creation; a key without a pending creation has no creator; a resolved creation
  carries the session of its own number.
\<close>

definition invSM :: "SessionManager \<Rightarrow> bool" where
  "invSM sm \<longleftrightarrow>
     (\<forall>k c. pendingCreations sm k = Some c \<longrightarrow>
        map_of (sessions sm) k = None \<and> c < length (creations sm) \<and> creatorsOf k sm = [Creator k c]) \<and>
     (\<forall>k. pendingCreations sm k = None \<longrightarrow> creatorsOf k sm = []) \<and>
     (\<forall>c m. c < length (creations sm) \<longrightarrow> creations sm ! c = Resolved m \<longrightarrow> session m = c)"

text \<open>
  Three facts that hold while no session has been closed. No call of
  \<open>closeSession\<close> is suspended. What a call has returned for a key is the session
  installed for the key, or the resolved creation pending for it. A call waiting
  for a creation waits for the one pending for its key, unless that creation was
  rejected or its session is the one installed.
\<close>

definition noClosing :: "SessionManager \<Rightarrow> bool" where
  "noClosing sm \<longleftrightarrow> (\<forall>k. ClosingChain k \<notin> set (tasks sm) \<and> ClosingSession k \<notin> set (tasks sm))"

definition returnedHeld :: "SessionManager \<Rightarrow> bool" where
  "returnedHeld sm \<longleftrightarrow>
     (\<forall>k v. (k, v) \<in> set (returned sm) \<longrightarrow>
        (\<exists>m. map_of (sessions sm) k = Some m \<and> session m = v) \<or>
        (pendingCreations sm k = Some v \<and> (\<exists>m. creations sm ! v = Resolved m)))"

definition waitersJoin :: "SessionManager \<Rightarrow> bool" where
  "waitersJoin sm \<longleftrightarrow>
     (\<forall>k c. Waiter k c \<in> set (tasks sm) \<longrightarrow>
        c < length (creations sm) \<and>
        (pendingCreations sm k = Some c \<or> creations sm ! c = Rejected \<or>
         (\<exists>m. map_of (sessions sm) k = Some m \<and> session m = c)))"

definition invReturned :: "SessionManager \<Rightarrow> bool" where
  "invReturned sm \<longleftrightarrow> (closes sm = 0 \<longrightarrow> noClosing sm \<and> returnedHeld sm \<and> waitersJoin sm)"


section \<open>The agent server: the \<open>POST /chat\<close> handler of \<open>src/sdk/agent-server.ts\<close>\<close>

text \<open>
  Source: the server script (in this tree the second part of \<open>src/src/sdk/types.ts\<close>),
  lines 270 to 298 and 319 to 354.
\<close>

record ChatBody =
  message_b :: "string option"
  session_id :: "string option"

datatype Reply =
    Reply200 (response: string) (session_id_r: string)
  | Reply400 string
  | Reply500 string

definition isHex :: "char \<Rightarrow> bool" where
  "isHex c = (let n = (of_char c :: nat) in (48 \<le> n \<and> n \<le> 57) \<or> (97 \<le> n \<and> n \<le> 102))"

text \<open>A line terminator of the 8-bit range: what \<open>.\<close> in a pattern does not match.\<close>

definition isLineTerminator :: "char \<Rightarrow> bool" where
  "isLineTerminator c = (of_char c \<in> {10, 13 :: nat})"

text \<open>
  The test \<open>/^.+-[a-f0-9]{16}$/\<close>: the last sixteen characters are lower-case hex
  digits, before them stands a dash, and before the dash at least one character,
  none of them a line terminator.
\<close>

definition hasSecureSuffix :: "string \<Rightarrow> bool" where
  "hasSecureSuffix s =
     (let n = length s
      in n \<ge> 18 \<and> s ! (n - 17) = CHR ''-'' \<and> list_all isHex (drop (n - 16) s) \<and>
         \<not> list_ex isLineTerminator (take (n - 17) s))"

text \<open>
  The session id of a request; \<open>cryptoSuffix\<close> is the sixteen hex digits drawn for
  it from \<open>crypto.randomBytes\<close>.
\<close>

definition chatSessionId :: "string option \<Rightarrow> string \<Rightarrow> string" where
  "chatSessionId provided cryptoSuffix =
     (if \<not> truthy provided then ''session-'' @ cryptoSuffix
      else if hasSecureSuffix (the provided) then the provided
      else the provided @ ''-'' @ cryptoSuffix)"

text \<open>
  A handler suspended at an \<open>await\<close>, with its session id and message: inside
  \<open>getOrCreateSession\<close> at \<open>fs.mkdir\<close> or at \<open>createAgentSession\<close>; at the \<open>await\<close> of
  \<open>getOrCreateSession\<close>, whose promise is resolved with a session object; at the
  \<open>await\<close> of \<open>session.prompt\<close> on that object.
\<close>

datatype Handler =
    AwaitMkdir string string
  | AwaitCreate string string
  | AwaitSession string string nat
  | AwaitPrompt string string nat

text \<open>
  The server: the session cache (session id to session object, the objects numbered
  as they are created), the suspended handlers by request, and the replies sent.
\<close>

record AgentServer =
  sessionCache :: "(string \<times> nat) list"
  handlers :: "(nat \<times> Handler) list"
  replies :: "(nat \<times> Reply) list"
  created :: nat

definition newAgentServer :: AgentServer where
  "newAgentServer = \<lparr>sessionCache = [], handlers = [], replies = [], created = 0\<rparr>"

text \<open>
  What can happen: a request arrives (with the random suffix drawn for it), and,
  for a suspended handler, the awaited promise settles and the handler runs on to
  its next \<open>await\<close> or to its reply. \<open>MkdirDone\<close> and \<open>CreateDone\<close> carry the
  message of the error when the call failed; \<open>PromptDone\<close> carries the error message
  of a rejected prompt or what \<open>getLastAssistantText()\<close> returns after a resolved one.
\<close>

datatype ServerEvent =
    Post nat ChatBody string
  | MkdirDone nat "string option"
  | CreateDone nat "string option"
  | Continue nat
  | PromptDone nat "string + string option"

definition setHandler :: "nat \<Rightarrow> Handler \<Rightarrow> AgentServer \<Rightarrow> AgentServer" where
  "setHandler r h s = s\<lparr>handlers := mapSet r h (handlers s)\<rparr>"

definition sendReply :: "nat \<Rightarrow> Reply \<Rightarrow> AgentServer \<Rightarrow> AgentServer" where
  "sendReply r rep s = s\<lparr>handlers := mapDelete r (handlers s), replies := replies s @ [(r, rep)]\<rparr>"

text \<open>
  One event. A request is refused with 400 when it has no message. Otherwise
  \<open>getOrCreateSession\<close> either finds the session id in the cache or starts creating
  a session; once the handler has the session it calls \<open>prompt\<close> on it. No step looks
  at what the other handlers are waiting for.
\<close>

definition serverStep :: "ServerEvent \<Rightarrow> AgentServer \<Rightarrow> AgentServer option" where
  "serverStep ev s =
     (case ev of
        Post r body cryptoSuffix \<Rightarrow>
          (if map_of (handlers s) r \<noteq> None \<or> r \<in> fst ` set (replies s) then None
           else if \<not> truthy (message_b body) then Some (sendReply r (Reply400 ''message is required'') s)
           else let sid = chatSessionId (session_id body) cryptoSuffix; msg = the (message_b body)
                in case map_of (sessionCache s) sid of
                     Some obj \<Rightarrow> Some (setHandler r (AwaitSession sid msg obj) s)
                   | None \<Rightarrow> Some (setHandler r (AwaitMkdir sid msg) s))
      | MkdirDone r failure \<Rightarrow>
          (case map_of (handlers s) r of
             Some (AwaitMkdir sid msg) \<Rightarrow>
               (case failure of
                  None \<Rightarrow> Some (setHandler r (AwaitCreate sid msg) s)
                | Some err \<Rightarrow> Some (sendReply r (Reply500 err) s))
           | _ \<Rightarrow> None)
      | CreateDone r failure \<Rightarrow>
          (case map_of (handlers s) r of
             Some (AwaitCreate sid msg) \<Rightarrow>
               (case failure of
                  None \<Rightarrow>
                    Some (setHandler r (AwaitSession sid msg (created s))
                            (s\<lparr>sessionCache := mapSet sid (created s) (sessionCache s),
                               created := Suc (created s)\<rparr>))
                | Some err \<Rightarrow> Some (sendReply r (Reply500 err) s))
           | _ \<Rightarrow> None)
      | Continue r \<Rightarrow>
          (case map_of (handlers s) r of
             Some (AwaitSession sid msg obj) \<Rightarrow> Some (setHandler r (AwaitPrompt sid msg obj) s)
           | _ \<Rightarrow> None)
      | PromptDone r res \<Rightarrow>
          (case map_of (handlers s) r of
             Some (AwaitPrompt sid msg obj) \<Rightarrow>
               (case res of
                  Inl err \<Rightarrow> Some (sendReply r (Reply500 err) s)
                | Inr txt \<Rightarrow>
                    Some (sendReply r
                            (Reply200 (if truthy txt then the txt else []) sid) s))
           | _ \<Rightarrow> None))"

fun serverRun :: "ServerEvent list \<Rightarrow> AgentServer \<Rightarrow> AgentServer option" where
  "serverRun [] s = Some s"
| "serverRun (ev # evs) s = (case serverStep ev s of None \<Rightarrow> None | Some s' \<Rightarrow> serverRun evs s')"

text \<open>The requests whose prompt on a session id is in flight.\<close>

definition prompting :: "string \<Rightarrow> AgentServer \<Rightarrow> nat list" where
  "prompting sid s =
     map fst (filter (\<lambda>(r, h). case h of AwaitPrompt sid' msg obj \<Rightarrow> sid' = sid | _ \<Rightarrow> False)
                (handlers s))"


chapter \<open>Properties\<close>

section \<open>Rounding to a double\<close>

text \<open>
  The exponent \<open>expo\<close> finds is the one of the binade: a real number lies between
  \<open>2 ^ expo x\<close> and \<open>2 ^ (expo x + 1)\<close>, unless it is too small for a normal double.
\<close>

lemma two_powi_less_cancel: "(2::real) powi m < 2 powi n \<Longrightarrow> m < n"
proof (rule ccontr)
  assume a: "(2::real) powi m < 2 powi n" and "\<not> m < n"
  then have "n \<le> m" by simp
  then have "(2::real) powi n \<le> 2 powi m" by (intro power_int_increasing) simp_all
  with a show False by simp
qed

lemma binade_big:
  assumes "1 \<le> \<bar>x::real\<bar>"
  shows "2 powi (bitlen \<lfloor>\<bar>x\<bar>\<rfloor> - 1) \<le> \<bar>x\<bar> \<and> \<bar>x\<bar> < 2 powi (bitlen \<lfloor>\<bar>x\<bar>\<rfloor> - 1 + 1) \<and> 0 \<le> bitlen \<lfloor>\<bar>x\<bar>\<rfloor> - 1"
proof -
  define n where "n = \<lfloor>\<bar>x\<bar>\<rfloor>"
  have n: "1 \<le> n" using assms by (simp add: n_def le_floor_iff)
  then have b: "2 ^ nat (bitlen n - 1) \<le> n" "n < 2 ^ nat (bitlen n)"
    using bitlen_bounds [of n] by simp_all
  have pos: "1 \<le> bitlen n"
  proof (rule ccontr)
    assume "\<not> 1 \<le> bitlen n"
    then have "nat (bitlen n) = 0" by simp
    with b(2) n show False by simp
  qed
  have lo: "real_of_int n \<le> \<bar>x\<bar>" by (simp add: n_def)
  have hi: "\<bar>x\<bar> < real_of_int n + 1" by (simp add: n_def)
  have r: "(2::real) ^ nat (bitlen n - 1) \<le> real_of_int n"
    using b(1) by simp
  have p: "(2::real) powi (bitlen n - 1) = 2 ^ nat (bitlen n - 1)"
    using pos by (simp add: power_int_def)
  have l: "2 powi (bitlen n - 1) \<le> \<bar>x\<bar>"
    unfolding p using r lo by (rule order_trans)
  have "n + 1 \<le> 2 ^ nat (bitlen n)" using b(2) by simp
  then have "real_of_int (n + 1) \<le> (2::real) ^ nat (bitlen n)"
    by (simp only: of_int_le_numeral_power_cancel_iff)
  then have "real_of_int n + 1 \<le> (2::real) ^ nat (bitlen n)"
    by simp
  then have u: "\<bar>x\<bar> < 2 powi (bitlen n - 1 + 1)"
    using hi pos by (simp add: power_int_def)
  show ?thesis using l u pos unfolding n_def by simp
qed

lemma binade_small:
  assumes "\<bar>x::real\<bar> < 1" and "x \<noteq> 0"
  shows "2 powi (- bitlen (\<lceil>1 / \<bar>x\<bar>\<rceil> - 1)) \<le> \<bar>x\<bar> \<and> \<bar>x\<bar> < 2 powi (- bitlen (\<lceil>1 / \<bar>x\<bar>\<rceil> - 1) + 1)"
proof -
  define y where "y = 1 / \<bar>x\<bar>"
  define m where "m = \<lceil>y\<rceil> - 1"
  have xpos: "0 < \<bar>x\<bar>" using assms(2) by simp
  have y1: "1 < y" using assms xpos by (simp add: y_def)
  have m1: "1 \<le> m" using y1 by (simp add: m_def less_ceiling_iff)
  have my: "real_of_int m < y" by (simp add: m_def) linarith
  have ym: "y \<le> real_of_int m + 1" by (simp add: m_def)
  have b: "2 ^ nat (bitlen m - 1) \<le> m" "m < 2 ^ nat (bitlen m)"
    using bitlen_bounds [of m] m1 by simp_all
  have pos: "1 \<le> bitlen m"
  proof (rule ccontr)
    assume "\<not> 1 \<le> bitlen m"
    then have "nat (bitlen m) = 0" by simp
    with b(2) m1 show False by simp
  qed
  have "m + 1 \<le> 2 ^ nat (bitlen m)" using b(2) by simp
  then have "real_of_int (m + 1) \<le> (2::real) ^ nat (bitlen m)"
    by (simp only: of_int_le_numeral_power_cancel_iff)
  then have "real_of_int m + 1 \<le> (2::real) ^ nat (bitlen m)"
    by simp
  then have yle: "y \<le> 2 ^ nat (bitlen m)" using ym by simp
  have "(2::real) ^ nat (bitlen m - 1) \<le> real_of_int m"
    using b(1) by simp
  from this my have ygt: "2 ^ nat (bitlen m - 1) < y" by (rule le_less_trans)
  have xy: "\<bar>x\<bar> = 1 / y" using xpos by (simp add: y_def)
  have l: "2 powi (- bitlen m) \<le> \<bar>x\<bar>"
  proof -
    have "1 / 2 ^ nat (bitlen m) \<le> 1 / y"
      using yle y1 by (simp add: frac_le)
    then show ?thesis using pos xy by (simp add: power_int_def field_simps)
  qed
  have u: "\<bar>x\<bar> < 2 powi (- bitlen m + 1)"
  proof -
    have "1 / y < 1 / 2 ^ nat (bitlen m - 1)"
      using ygt by (simp add: frac_less2)
    moreover have "2 powi (- bitlen m + 1) = 1 / (2::real) ^ nat (bitlen m - 1)"
      using pos by (simp add: power_int_def field_simps nat_diff_distrib)
    ultimately show ?thesis using xy by simp
  qed
  show ?thesis using l u unfolding m_def y_def by simp
qed

lemma expo_ge: "- 1022 \<le> expo x"
proof (cases "1 \<le> \<bar>x\<bar>")
  case True
  from binade_big [OF True] have "0 \<le> bitlen \<lfloor>\<bar>x\<bar>\<rfloor> - 1" by simp
  then show ?thesis using True by (simp add: expo_def)
next
  case False
  then show ?thesis by (simp add: expo_def)
qed

lemma expo_upper: "\<bar>x\<bar> < 2 powi (expo x + 1)"
proof (cases "x = 0")
  case True
  then show ?thesis by (simp add: expo_def)
next
  case False
  show ?thesis
  proof (cases "1 \<le> \<bar>x\<bar>")
    case True
    from binade_big [OF True] show ?thesis using True by (simp add: expo_def)
  next
    case small: False
    then have s: "\<bar>x\<bar> < 1" by simp
    define t where "t = - bitlen (\<lceil>1 / \<bar>x\<bar>\<rceil> - 1)"
    from binade_small [OF s False] have u: "\<bar>x\<bar> < 2 powi (t + 1)" by (simp add: t_def)
    have e: "expo x = max (- 1022) t" using small False by (simp add: expo_def t_def)
    have "(2::real) powi (t + 1) \<le> 2 powi (max (- 1022) t + 1)"
      by (rule power_int_increasing) simp_all
    then show ?thesis using u e by simp
  qed
qed

lemma expo_cases: "expo x = - 1022 \<or> 2 powi (expo x) \<le> \<bar>x\<bar>"
proof (cases "1 \<le> \<bar>x\<bar>")
  case True
  from binade_big [OF True] show ?thesis using True by (simp add: expo_def)
next
  case small: False
  then have s: "\<bar>x\<bar> < 1" by simp
  show ?thesis
  proof (cases "x = 0")
    case True
    then show ?thesis by (simp add: expo_def)
  next
    case False
    define t where "t = - bitlen (\<lceil>1 / \<bar>x\<bar>\<rceil> - 1)"
    from binade_small [OF s False] have l: "2 powi t \<le> \<bar>x\<bar>" by (simp add: t_def)
    have e: "expo x = max (- 1022) t" using small False by (simp add: expo_def t_def)
    show ?thesis using l unfolding e max_def by simp
  qed
qed

lemma expo_eqI:
  assumes "- 1022 \<le> e" and "2 powi e \<le> \<bar>x\<bar>" and "\<bar>x\<bar> < 2 powi (e + 1)"
  shows "expo x = e"
proof -
  have a: "expo x < e + 1"
  proof -
    from expo_cases [of x] show ?thesis
    proof
      assume "expo x = - 1022"
      then show ?thesis using assms(1) by simp
    next
      assume "2 powi (expo x) \<le> \<bar>x\<bar>"
      then have "(2::real) powi (expo x) < 2 powi (e + 1)" using assms(3) by simp
      then show ?thesis by (rule two_powi_less_cancel)
    qed
  qed
  have "(2::real) powi e < 2 powi (expo x + 1)" using assms(2) expo_upper [of x] by simp
  then have b: "e < expo x + 1"  by (rule two_powi_less_cancel)
  from a b show ?thesis by simp
qed

text \<open>
  Rounding to the nearest integer fixes the integers and stays within one half; so a
  whole number below \<open>2 ^ 53\<close> in magnitude is a double, and rounding the quotient of two
  such numbers never reaches the next integer: \<open>Math.floor\<close> of the rounded quotient is
  the floor of the exact one.
\<close>

lemma roundEven_of_int: "roundEven (of_int k) = k"
  by (simp add: roundEven_def)

lemma roundEven_ge: "of_int n \<le> t \<Longrightarrow> n \<le> roundEven t"
proof -
  assume "of_int n \<le> t"
  then have "n \<le> \<lfloor>t\<rfloor>" by (simp add: le_floor_iff)
  moreover have "\<lfloor>t\<rfloor> \<le> roundEven t" by (simp add: roundEven_def Let_def)
  ultimately show ?thesis by simp
qed

lemma roundEven_upper: "of_int (roundEven t) \<le> t + 1 / 2"
  unfolding roundEven_def Let_def by (simp split: if_split; intro conjI impI; linarith)

lemma roundEven_lower: "t - 1 / 2 \<le> of_int (roundEven t)"
  unfolding roundEven_def Let_def by (simp split: if_split; intro conjI impI; linarith)

lemma roundEven_lt: "t < of_int n - 1 / 2 \<Longrightarrow> roundEven t < n"
proof -
  assume "t < of_int n - 1 / 2"
  then have "real_of_int (roundEven t) < of_int n" using roundEven_upper [of t] by linarith
  then show ?thesis by simp
qed

lemma ulp_pos: "0 < ulp x"
  by (simp add: ulp_def)

lemma round64_zero: "round64 0 = Finite 0"
  by (simp add: round64_def roundEven_def)

lemma round64_of_int:
  assumes "\<bar>n\<bar> < 2 ^ 53"
  shows "round64 (of_int n) = Finite (of_int n)"
proof (cases "n = 0")
  case True
  then show ?thesis by (simp add: round64_zero)
next
  case False
  define x where "x = real_of_int n"
  define e where "e = expo x"
  have x1: "1 \<le> \<bar>x\<bar>" using False by (simp add: x_def flip: of_int_abs)
  have xb: "\<bar>x\<bar> < 2 ^ 53"
    using assms unfolding x_def by (simp flip: of_int_abs)
  have e52: "e \<le> 52"
  proof -
    from expo_cases [of x] show ?thesis
    proof
      assume "expo x = - 1022" then show ?thesis by (simp add: e_def)
    next
      assume "2 powi (expo x) \<le> \<bar>x\<bar>"
      then have "(2::real) powi e < 2 powi 53" using xb by (simp add: e_def)
      then have "e < 53" by (rule two_powi_less_cancel)
      then show ?thesis by simp
    qed
  qed
  define k where "k = nat (52 - e)"
  have u: "ulp x = 1 / 2 ^ k"
    using e52 by (simp add: ulp_def e_def [symmetric] k_def power_int_def field_simps)
  have "x / ulp x = of_int (n * 2 ^ k)" unfolding u by (simp add: x_def)
  then have r: "roundEven (x / ulp x) = n * 2 ^ k" by (simp only: roundEven_of_int)
  have "of_int (roundEven (x / ulp x)) * ulp x = real_of_int (n * 2 ^ k) * ulp x"
    by (simp only: r)
  also have "\<dots> = real_of_int (n * 2 ^ k) * (1 / 2 ^ k)"
    by (simp only: u)
  also have "\<dots> = x" by (simp add: x_def)
  finally have y: "of_int (roundEven (x / ulp x)) * ulp x = x" .
  have "x < 2 ^ 1024" "- (2 ^ 1024) < x" using xb by simp_all
  then show ?thesis unfolding x_def [symmetric] round64_def y by (simp add: Let_def)
qed

lemma round64_quotient_floor:
  fixes a b :: int
  assumes b: "0 < b" "b < 2 ^ 53" and a: "\<bar>a\<bar> < 2 ^ 53"
  shows "\<exists>y. round64 (of_int a / of_int b) = Finite y \<and> \<lfloor>y\<rfloor> = a div b"
proof -
  define q where "q = real_of_int a / real_of_int b"
  define e where "e = expo q"
  define k where "k = a div b"
  have kq: "k = \<lfloor>q\<rfloor>" by (simp add: k_def q_def floor_divide_of_int_eq)
  have bpos: "0 < real_of_int b" "1 \<le> real_of_int b" using b(1) by simp_all
  have ar: "\<bar>real_of_int a\<bar> < 2 ^ 53" using a by (simp flip: of_int_abs)
  have "\<bar>q\<bar> = \<bar>real_of_int a\<bar> / real_of_int b" using bpos by (simp add: q_def)
  also have "\<dots> \<le> \<bar>real_of_int a\<bar> / 1" using bpos by (intro divide_left_mono) simp_all
  finally have qa: "\<bar>q\<bar> \<le> \<bar>real_of_int a\<bar>" by simp
  have e52: "e \<le> 52"
  proof -
    from expo_cases [of q] show ?thesis
    proof
      assume "expo q = - 1022" then show ?thesis by (simp add: e_def)
    next
      assume "2 powi (expo q) \<le> \<bar>q\<bar>"
      then have "(2::real) powi e < 2 powi 53" using qa ar by (simp add: e_def)
      then have "e < 53" by (rule two_powi_less_cancel)
      then show ?thesis by simp
    qed
  qed
  define n where "n = nat (52 - e)"
  define N where "N = (2::real) ^ n"
  have Npos: "0 < N" by (simp add: N_def)
  have u: "ulp q = 1 / N"
    using e52 by (simp add: ulp_def e_def [symmetric] n_def N_def power_int_def field_simps)
  define r where "r = roundEven (q / ulp q)"
  have qu: "q / ulp q = q * N" by (simp add: u)
  have pe: "(2::real) powi e = 2 ^ 52 / N"
  proof -
    have "ulp q = 2 powi e / 2 powi 52"
      unfolding ulp_def e_def [symmetric] by (rule power_int_diff) simp
    then have "1 / N = 2 powi e / 2 ^ 52" using u by simp
    then show ?thesis using Npos by (simp add: field_simps)
  qed
  have bN: "real_of_int b < 2 * N"
  proof -
    from expo_cases [of q] show ?thesis
    proof
      assume "expo q = - 1022"
      then have "n = 1074" by (simp add: n_def e_def)
      then have "(2::real) ^ 53 \<le> N" by (simp add: N_def)
      moreover have "real_of_int b < 2 ^ 53" using b(2) by simp
      ultimately show ?thesis using Npos by linarith
    next
      assume low: "2 powi (expo q) \<le> \<bar>q\<bar>"
      have "2 ^ 52 / N \<le> \<bar>real_of_int a\<bar> / real_of_int b"
        using low \<open>\<bar>q\<bar> = \<bar>real_of_int a\<bar> / real_of_int b\<close> pe by (simp add: e_def)
      also have "\<dots> < 2 ^ 53 / real_of_int b"
        using ar bpos by (intro divide_strict_right_mono) simp_all
      finally have "2 ^ 52 * real_of_int b < 2 ^ 53 * N"
        using Npos bpos by (simp add: field_simps)
      then show ?thesis by simp
    qed
  qed
  have klo: "real_of_int k \<le> q" by (simp add: kq)
  have khi: "q < real_of_int k + 1" unfolding kq by linarith
  have r_lo: "k * 2 ^ n \<le> r"
  proof -
    have "real_of_int (k * 2 ^ n) = real_of_int k * N" by (simp add: N_def)
    also have "\<dots> \<le> q * N" using klo Npos by (intro mult_right_mono) simp_all
    finally show ?thesis unfolding r_def qu by (rule roundEven_ge)
  qed
  have gap: "q + 1 / real_of_int b \<le> real_of_int k + 1"
  proof -
    have "real_of_int a < (real_of_int k + 1) * real_of_int b"
      using khi bpos by (simp add: q_def field_simps)
    then have "real_of_int a < real_of_int ((k + 1) * b)" by simp
    then have "a < (k + 1) * b" by (simp only: of_int_less_iff)
    then have "a + 1 \<le> (k + 1) * b" by simp
    then have "real_of_int (a + 1) \<le> real_of_int ((k + 1) * b)" by (simp only: of_int_le_iff)
    then have "real_of_int a + 1 \<le> (real_of_int k + 1) * real_of_int b" by simp
    then show ?thesis using bpos by (simp add: q_def field_simps)
  qed
  have r_hi: "r < (k + 1) * 2 ^ n"
  proof -
    have half: "1 / 2 < N / real_of_int b" using bN bpos by (simp add: field_simps)
    have g2: "1 / real_of_int b \<le> real_of_int k + 1 - q" using gap by linarith
    have "(1 / real_of_int b) * N \<le> (real_of_int k + 1 - q) * N"
      using g2 Npos by (intro mult_right_mono) simp_all
    then have h1: "N / real_of_int b \<le> (real_of_int k + 1) * N - q * N"
      by (simp add: algebra_simps)
    from h1 half have A: "q * N < (real_of_int k + 1) * N - 1 / 2" by linarith
    have B: "real_of_int ((k + 1) * 2 ^ n) = (real_of_int k + 1) * N" by (simp add: N_def)
    from A have "q * N < real_of_int ((k + 1) * 2 ^ n) - 1 / 2" unfolding B .
    then show ?thesis unfolding r_def qu by (rule roundEven_lt)
  qed
  define y where "y = real_of_int r * ulp q"
  have yN: "y = real_of_int r / N" by (simp add: y_def u)
  have y_lo: "real_of_int k \<le> y"
  proof -
    have "real_of_int (k * 2 ^ n) \<le> real_of_int r" using r_lo by (simp only: of_int_le_iff)
    then have "real_of_int k * N \<le> real_of_int r" by (simp add: N_def)
    then show ?thesis using Npos by (simp add: yN field_simps)
  qed
  have y_hi: "y < real_of_int k + 1"
  proof -
    have "real_of_int r < real_of_int ((k + 1) * 2 ^ n)" using r_hi by (simp only: of_int_less_iff)
    then have "real_of_int r < (real_of_int k + 1) * N" by (simp add: N_def)
    then show ?thesis using Npos by (simp add: yN field_simps)
  qed
  have fl: "\<lfloor>y\<rfloor> = k" using y_lo y_hi by (intro floor_unique) simp_all
  have "y < 2 ^ 1024" "- (2 ^ 1024) < y"
    using y_lo y_hi klo khi qa ar by (simp_all add: abs_if split: if_splits)
  then have "round64 q = Finite y"
    unfolding round64_def r_def [symmetric] y_def [symmetric] Let_def by simp
  then show ?thesis using fl unfolding q_def k_def by blast
qed

text \<open>Arithmetic on whole numbers of milliseconds is exact while it stays below \<open>2 ^ 53\<close>.\<close>

lemma Finite_ms: "Finite (numeral w) = millis (numeral w)" "Finite 1 = millis 1" "Finite 0 = millis 0"
  by (simp_all add: millis_def)

lemma round64_ms: "\<bar>n\<bar> < 2 ^ 53 \<Longrightarrow> round64 (of_int n) = millis n"
  unfolding millis_def by (rule round64_of_int)

lemma ms_add_exact: "\<bar>a + b\<bar> < 2 ^ 53 \<Longrightarrow> jsAdd (millis a) (millis b) = millis (a + b)"
  using round64_ms [of "a + b"] by (simp add: jsAdd_def millis_def)

lemma ms_sub_exact: "\<bar>a - b\<bar> < 2 ^ 53 \<Longrightarrow> jsSub (millis a) (millis b) = millis (a - b)"
  using round64_ms [of "a - b"] by (simp add: jsSub_def jsNeg_def jsAdd_def millis_def)

lemma ms_mul_exact: "\<bar>a * b\<bar> < 2 ^ 53 \<Longrightarrow> jsMul (millis a) (millis b) = millis (a * b)"
  using round64_ms [of "a * b"] by (simp add: jsMul_def millis_def)

lemma ms_div_floor:
  assumes "b \<noteq> 0" and "\<bar>b\<bar> < 2 ^ 53" and "\<bar>a\<bar> < 2 ^ 53"
  shows "mathFloor (jsDiv (millis a) (millis b)) = millis (a div b)"
proof -
  have "\<exists>y. round64 (real_of_int a / real_of_int b) = Finite y \<and> \<lfloor>y\<rfloor> = a div b"
  proof (cases "0 < b")
    case True
    then show ?thesis using assms by (intro round64_quotient_floor) simp_all
  next
    case False
    then have "0 < - b" using assms(1) by simp
    then have "\<exists>y. round64 (real_of_int (- a) / real_of_int (- b)) = Finite y \<and> \<lfloor>y\<rfloor> = (- a) div (- b)"
      using assms by (intro round64_quotient_floor) simp_all
    then show ?thesis by simp
  qed
  then obtain y where "round64 (real_of_int a / real_of_int b) = Finite y" "\<lfloor>y\<rfloor> = a div b"
    by blast
  then show ?thesis using assms(1) by (simp add: jsDiv_def mathFloor_def millis_def)
qed

lemma next_period_bounds:
  fixes a e :: int
  assumes "e \<noteq> 0"
  shows "\<bar>(a div e + 1) * e - a\<bar> \<le> \<bar>e\<bar> \<and> \<bar>a div e + 1\<bar> \<le> \<bar>(a div e + 1) * e\<bar>"
proof -
  have m: "(a div e + 1) * e - a = e - a mod e"
    by (simp add: algebra_simps minus_mod_eq_mult_div [symmetric])
  have "\<bar>e - a mod e\<bar> \<le> \<bar>e\<bar>"
  proof (cases "0 < e")
    case True
    then have "0 \<le> a mod e" "a mod e < e" by simp_all
    then show ?thesis by simp
  next
    case False
    then have "e < 0" using assms by simp
    then have "a mod e \<le> 0" "e < a mod e" by simp_all
    then show ?thesis by simp
  qed
  moreover have "\<bar>a div e + 1\<bar> \<le> \<bar>(a div e + 1) * e\<bar>"
  proof -
    have "1 \<le> \<bar>e\<bar>" using assms by simp
    then have "\<bar>a div e + 1\<bar> * 1 \<le> \<bar>a div e + 1\<bar> * \<bar>e\<bar>" by (intro mult_left_mono) simp_all
    then show ?thesis by (simp add: abs_mult)
  qed
  ultimately show ?thesis using m by simp
qed

lemma every_exact:
  fixes now e anchor :: int
  assumes e: "e \<noteq> 0" and r1: "\<bar>now - anchor\<bar> + \<bar>e\<bar> < 2 ^ 53" and r2: "\<bar>now\<bar> + \<bar>e\<bar> < 2 ^ 53"
  shows "jsAdd (millis anchor)
           (jsMul (jsAdd (mathFloor (jsDiv (jsSub (millis now) (millis anchor)) (millis e))) (Finite 1)) (millis e)) =
         millis (anchor + ((now - anchor) div e + 1) * e)"
proof -
  define a where "a = now - anchor"
  define k where "k = a div e"
  define m where "m = (k + 1) * e"
  have e1: "1 \<le> \<bar>e\<bar>" using e by simp
  have a53: "\<bar>a\<bar> < 2 ^ 53" using r1 e1 by (simp add: a_def)
  have e53: "\<bar>e\<bar> < 2 ^ 53" using r2 by simp
  from next_period_bounds [OF e, of a]
  have d: "\<bar>m - a\<bar> \<le> \<bar>e\<bar>" and k1: "\<bar>k + 1\<bar> \<le> \<bar>m\<bar>" by (simp_all add: m_def k_def)
  have m53: "\<bar>m\<bar> < 2 ^ 53" using d r1 by (simp add: a_def)
  have k53: "\<bar>k + 1\<bar> < 2 ^ 53" using k1 m53 by simp
  have n53: "\<bar>anchor + m\<bar> < 2 ^ 53" using d r2 by (simp add: a_def)
  have s1: "jsSub (millis now) (millis anchor) = millis a"
    unfolding a_def using a53 by (intro ms_sub_exact) (simp add: a_def)
  have s2: "mathFloor (jsDiv (millis a) (millis e)) = millis k"
    unfolding k_def using e e53 a53 by (rule ms_div_floor)
  have s3: "jsAdd (millis k) (millis 1) = millis (k + 1)" using k53 by (rule ms_add_exact)
  have s4: "jsMul (millis (k + 1)) (millis e) = millis m" unfolding m_def using m53 by (intro ms_mul_exact) (simp add: m_def)
  have s5: "jsAdd (millis anchor) (millis m) = millis (anchor + m)" using n53 by (rule ms_add_exact)
  show ?thesis
    unfolding Finite_ms s1 s2 s3 s4 s5 by (simp add: m_def k_def a_def)
qed

lemma specEvery_int:
  "specEvery (of_int now) (of_int e) (map_option of_int anc) =
     of_int ((case anc of Some a \<Rightarrow> a | None \<Rightarrow> now) +
             ((now - (case anc of Some a \<Rightarrow> a | None \<Rightarrow> now)) div e + 1) * e)"
proof -
  have "\<lfloor>(real_of_int now - real_of_int a) / real_of_int e\<rfloor> = (now - a) div e" for a
    using floor_divide_of_int_eq [of "now - a" e, where ?'a = real] by simp
  then show ?thesis by (cases anc) (simp_all add: specEvery_def)
qed

lemma now_plus_exact:
  assumes "timeValue t" and "0 \<le> d" and "d \<le> 60000"
  shows "jsAdd (millis t) (millis d) = millis (t + d)"
  using assms by (intro ms_add_exact) (simp add: timeValue_def)


section \<open>Next-run computation\<close>

lemma computeNextRun_every_exact:
  assumes "exactRange now e anc"
  shows "computeNextRun cronNext now later (Every (millis e) (map_option millis anc)) =
           millis ((case anc of Some a \<Rightarrow> a | None \<Rightarrow> now) +
               ((now - (case anc of Some a \<Rightarrow> a | None \<Rightarrow> now)) div e + 1) * e)"
proof (cases anc)
  case None
  have "jsAdd (millis now) (jsMul (jsAdd (mathFloor (jsDiv (jsSub (millis now) (millis now)) (millis e))) (Finite 1)) (millis e)) =
        millis (now + ((now - now) div e + 1) * e)"
    using assms None by (intro every_exact) (simp_all add: exactRange_def)
  then show ?thesis using None by (simp add: Let_def)
next
  case (Some a)
  have "jsAdd (millis a) (jsMul (jsAdd (mathFloor (jsDiv (jsSub (millis now) (millis a)) (millis e))) (Finite 1)) (millis e)) =
        millis (a + ((now - a) div e + 1) * e)"
    using assms Some by (intro every_exact) (simp_all add: exactRange_def)
  then show ?thesis using Some by (simp add: Let_def)
qed




lemmas round64_eval = round64_def ulp_def expo_def roundEven_def compute_bitlen Let_def

lemmas jsnum_eval = jsAdd_def jsSub_def jsMul_def jsDiv_def jsNeg_def jsGt_def mathFloor_def
  mathMax_def millis_def


text \<open>
  C7 (amended). \<open>computeNextRun\<close> follows the specification's definition: for \<open>at\<close> it
  returns the target itself when that lies ahead of \<open>now\<close> and \<open>now + 1000\<close> otherwise;
  for \<open>every\<close>, whenever the period, the anchor and \<open>now\<close> are whole numbers of
  milliseconds, the period is not zero and \<open>\<bar>now - anchor\<bar> + \<bar>everyMs\<bar>\<close> and
  \<open>\<bar>now\<bar> + \<bar>everyMs\<bar>\<close> are below \<open>2 ^ 53\<close>, it returns exactly
  \<open>anchor + (floor((now - anchor) / everyMs) + 1) * everyMs\<close>, the anchor being \<open>anchorMs\<close>
  when present and \<open>now\<close> otherwise; for \<open>cron\<close> with an expression the parser rejects,
  60000 ms after the clock reading taken in the fallback.
\<close>

theorem computeNextRun_follows_spec:
  assumes "timeValue now" and "timeValue later"
  shows "(jsGt a (millis now) \<longrightarrow> computeNextRun cronNext now later (At a) = a) \<and>
         (\<not> jsGt a (millis now) \<longrightarrow> computeNextRun cronNext now later (At a) = millis (now + 1000)) \<and>
         (exactRange now e anc \<longrightarrow>
            computeNextRun cronNext now later (Every (millis e) (map_option millis anc)) =
              Finite (specEvery (of_int now) (of_int e) (map_option of_int anc))) \<and>
         (cronNext ex (if z = Some [] then None else z) = None \<longrightarrow>
            computeNextRun cronNext now later (Cron ex z) = millis (later + 60000))"
proof (intro conjI impI)
  assume "jsGt a (millis now)"
  then show "computeNextRun cronNext now later (At a) = a" by simp
next
  assume "\<not> jsGt a (millis now)"
  moreover have "jsAdd (millis now) (millis 1000) = millis (now + 1000)"
    using assms(1) by (intro now_plus_exact) simp_all
  ultimately show "computeNextRun cronNext now later (At a) = millis (now + 1000)"
    by (simp add: Finite_ms)
next
  assume "exactRange now e anc"
  then show "computeNextRun cronNext now later (Every (millis e) (map_option millis anc)) =
               Finite (specEvery (of_int now) (of_int e) (map_option of_int anc))"
    unfolding specEvery_int millis_def [symmetric] by (rule computeNextRun_every_exact)
next
  assume "cronNext ex (if z = Some [] then None else z) = None"
  moreover have "jsAdd (millis later) (millis 60000) = millis (later + 60000)"
    using assms(2) by (intro now_plus_exact) simp_all
  ultimately show "computeNextRun cronNext now later (Cron ex z) = millis (later + 60000)"
    by (simp add: parseNextCron_def Finite_ms)
qed

theorem computeNextRun_follows_spec_witness:
  "timeValue 1000 \<and> timeValue 1002 \<and> exactRange 1000 300 (Some 250) \<and> exactRange 1000 300 None \<and>
   computeNextRun (\<lambda>_ _. None) 1000 1002 (At (Finite 5000)) = Finite 5000 \<and>
   computeNextRun (\<lambda>_ _. None) 1000 1002 (At (Finite 10)) = Finite 2000 \<and>
   computeNextRun (\<lambda>_ _. None) 1000 1002 (Every (Finite 300) (Some (Finite 250))) = Finite 1150 \<and>
   computeNextRun (\<lambda>_ _. None) 1000 1002 (Every (Finite 300) None) = Finite 1300 \<and>
   computeNextRun (\<lambda>_ _. None) 1000 1002 (Cron ''not a cron line'' None) = Finite 61002"
proof -
  have t: "timeValue 1000" "timeValue 1002" by (simp_all add: timeValue_def)
  have r: "exactRange 1000 300 (Some 250)" "exactRange 1000 300 None"
    by (simp_all add: exactRange_def)
  have g: "jsGt (Finite 5000) (millis 1000)" "\<not> jsGt (Finite 10) (millis 1000)"
    by (simp_all add: jsGt_def millis_def)
  note a = computeNextRun_follows_spec [OF t, of "Finite 5000" "\<lambda>_ _. None" 300 "Some 250" "''not a cron line''" None]
  note b = computeNextRun_follows_spec [OF t, of "Finite 10" "\<lambda>_ _. None" 300 None "''not a cron line''" None]
  have s: "specEvery 1000 300 (Some 250) = 1150" "specEvery 1000 300 None = 1300"
    by (simp_all add: specEvery_def)
  from a g(1) have 1: "computeNextRun (\<lambda>_ _. None) 1000 1002 (At (Finite 5000)) = Finite 5000" by blast
  from b g(2) have 2: "computeNextRun (\<lambda>_ _. None) 1000 1002 (At (Finite 10)) = Finite 2000"
    by (simp add: millis_def)
  from a r(1) have 3: "computeNextRun (\<lambda>_ _. None) 1000 1002 (Every (Finite 300) (Some (Finite 250))) = Finite 1150"
    using s by (simp add: millis_def del: computeNextRun.simps)
  from b r(2) have 4: "computeNextRun (\<lambda>_ _. None) 1000 1002 (Every (Finite 300) None) = Finite 1300"
    using s by (simp add: millis_def del: computeNextRun.simps)
  from a have 5: "computeNextRun (\<lambda>_ _. None) 1000 1002 (Cron ''not a cron line'' None) = Finite 61002"
    by (simp add: millis_def del: computeNextRun.simps)
  from t r 1 2 3 4 5 show ?thesis by blast
qed

text \<open>
  The claim as written fails, since the code computes in doubles. With a period of
  \<open>2 ^ 53 - 1\<close> ms at time 1000 the sum is rounded, and the code returns one more than
  the formula; with the period of 8.3 minutes, which is not a whole number of
  milliseconds, it returns less than the formula; with a period of zero it returns
  \<open>NaN\<close>.
\<close>

theorem computeNextRun_follows_spec_counterexample:
  "computeNextRun (\<lambda>_ _. None) 1000 1000 (Every (Finite 9007199254740991) None) = Finite 9007199254741992 \<and>
   specEvery 1000 9007199254740991 None = 9007199254741991 \<and>
   computeNextRun (\<lambda>_ _. None) 1700000498000 1700000498000
     (Every (Finite (498000 + 1 / 2 ^ 34)) (Some (Finite 1700000000000))) = Finite 1700000498000 \<and>
   specEvery 1700000498000 (498000 + 1 / 2 ^ 34) (Some 1700000000000) = 1700000498000 + 1 / 2 ^ 34 \<and>
   computeNextRun (\<lambda>_ _. None) 1000 1000 (Every (Finite 0) (Some (Finite 400))) = NaN"
proof (intro conjI)
  show "computeNextRun (\<lambda>_ _. None) 1000 1000 (Every (Finite 9007199254740991) None) = Finite 9007199254741992"
    by (simp add: jsnum_eval round64_eval)
  show "specEvery 1000 9007199254740991 None = 9007199254741991"
    by (simp add: specEvery_def)
  show "computeNextRun (\<lambda>_ _. None) 1700000498000 1700000498000
     (Every (Finite (498000 + 1 / 2 ^ 34)) (Some (Finite 1700000000000))) = Finite 1700000498000"
    by (simp add: jsnum_eval round64_eval)
  show "specEvery 1700000498000 (498000 + 1 / 2 ^ 34) (Some 1700000000000) = 1700000498000 + 1 / 2 ^ 34"
    by (simp add: specEvery_def)
  show "computeNextRun (\<lambda>_ _. None) 1000 1000 (Every (Finite 0) (Some (Finite 400))) = NaN"
    by (simp add: jsnum_eval round64_eval)
qed





section \<open>Inbound delivery on the bus\<close>

lemma publishAll_no_waiter:
  "resolvers b = [] \<Longrightarrow> publishAll ms b = b\<lparr>queue := queue b @ ms\<rparr>"
  by (induction ms arbitrary: b) (simp_all add: publishInbound_def)

lemma consumeAll_from_queue:
  "length cs \<le> length (queue b) \<Longrightarrow>
   consumeAll cs b = (map Some (take (length cs) (queue b)), b\<lparr>queue := drop (length cs) (queue b)\<rparr>)"
proof (induction cs arbitrary: b)
  case Nil
  then show ?case by simp
next
  case (Cons c cs)
  then obtain m ms where q: "queue b = m # ms" by (cases "queue b") auto
  with Cons.prems have "length cs \<le> length (queue (b\<lparr>queue := ms\<rparr>))" by simp
  from Cons.IH [OF this] q show ?case by (simp add: consumeInbound_def)
qed

lemma busRun_snoc: "busRun (ops @ [x]) = busStep (busRun ops) x"
  by (simp add: busRun_def)

lemma published_snoc:
  "published (ops @ [x]) = (case x of Publish m \<Rightarrow> published ops @ [m] | Consume \<Rightarrow> published ops)"
  by (induction ops rule: published.induct) (simp_all split: busOp.splits)

text \<open>
  After any sequence of calls: the queue holds the published messages no consumer has
  asked for yet, the waiters are the consumers no message has arrived for yet, both in
  order, and consumer \<open>i\<close> has received the \<open>i\<close>-th published message.
\<close>

lemma busRun_invariant:
  "queue (bus (busRun ops)) = drop (calls (busRun ops)) (published ops) \<and>
   resolvers (bus (busRun ops)) = [length (published ops) ..< calls (busRun ops)] \<and>
   received (busRun ops) =
     map (\<lambda>i. (i, published ops ! i)) [0 ..< min (calls (busRun ops)) (length (published ops))]"
proof (induction ops rule: rev_induct)
  case Nil
  show ?case by (simp add: busRun_def newBus_def)
next
  case (snoc x ops)
  define t where "t = busRun ops"
  define P where "P = published ops"
  note ih = snoc.IH [folded t_def P_def]
  show ?case
  proof (cases x)
    case (Publish m)
    show ?thesis
    proof (cases "length P < calls t")
      case True
      then have r: "resolvers (bus t) = length P # [Suc (length P) ..< calls t]"
        using ih by (simp add: upt_conv_Cons)
      have "map (\<lambda>i. (i, (P @ [m]) ! i)) [0 ..< Suc (length P)] =
            map (\<lambda>i. (i, P ! i)) [0 ..< length P] @ [(length P, m)]"
        by (simp add: nth_append)
      moreover have "min (calls t) (length P) = length P"
        "min (calls t) (Suc (length P)) = Suc (length P)"
        using True by simp_all
      ultimately show ?thesis using True r ih
        unfolding busRun_snoc published_snoc Publish t_def [symmetric] P_def [symmetric]
        by (simp add: busStep_def publishInbound_def)
    next
      case False
      then have r: "resolvers (bus t) = []" using ih by simp
      have "map (\<lambda>i. (i, (P @ [m]) ! i)) [0 ..< calls t] = map (\<lambda>i. (i, P ! i)) [0 ..< calls t]"
        using False by (simp add: nth_append)
      moreover have "min (calls t) (length P) = calls t"
        "min (calls t) (Suc (length P)) = calls t"
        using False by simp_all
      ultimately show ?thesis using False r ih
        unfolding busRun_snoc published_snoc Publish t_def [symmetric] P_def [symmetric]
        by (simp add: busStep_def publishInbound_def)
    qed
  next
    case Consume
    show ?thesis
    proof (cases "calls t < length P")
      case True
      then have q: "queue (bus t) = P ! calls t # drop (Suc (calls t)) P"
        using ih by (simp add: Cons_nth_drop_Suc)
      moreover have "min (calls t) (length P) = calls t"
        "min (Suc (calls t)) (length P) = Suc (calls t)"
        using True by simp_all
      ultimately show ?thesis using True ih
        unfolding busRun_snoc published_snoc Consume t_def [symmetric] P_def [symmetric]
        by (simp add: busStep_def consumeInbound_def)
    next
      case False
      then have q: "queue (bus t) = []" using ih by simp
      moreover have "min (calls t) (length P) = length P"
        "min (Suc (calls t)) (length P) = length P"
        using False by simp_all
      ultimately show ?thesis using False ih
        unfolding busRun_snoc published_snoc Consume t_def [symmetric] P_def [symmetric]
        by (simp add: busStep_def consumeInbound_def)
    qed
  qed
qed

text \<open>
  C8. \<open>publishInbound\<close> calls the resolver at the head of the waiter list (the consumer
  that has waited longest, since \<open>consumeInbound\<close> pushes at the end) with the message
  and removes it, and appends the message to the queue when nobody waits. Whatever
  the interleaving of the two calls on a fresh bus, the deliveries made are exactly
  the pairs of the \<open>i\<close>-th consumer with the \<open>i\<close>-th published message, each once. In
  particular \<open>N\<close> messages published and then \<open>N\<close> calls of \<open>consumeInbound\<close> return
  the \<open>N\<close> messages, one per call, in the order they were published, and leave the
  bus empty.
\<close>

theorem inbound_fifo:
  "(resolvers b = r # rs \<longrightarrow> publishInbound m b = (Some (r, m), b\<lparr>resolvers := rs\<rparr>)) \<and>
   (resolvers b = [] \<longrightarrow> publishInbound m b = (None, b\<lparr>queue := queue b @ [m]\<rparr>)) \<and>
   received (busRun ops) =
     map (\<lambda>i. (i, published ops ! i)) [0 ..< min (calls (busRun ops)) (length (published ops))] \<and>
   (length cs = length ms \<longrightarrow> consumeAll cs (publishAll ms newBus) = (map Some ms, newBus))"
proof (intro conjI impI)
  assume "length cs = length ms"
  moreover have "publishAll ms newBus = \<lparr>queue = ms, resolvers = []\<rparr>"
    by (simp add: publishAll_no_waiter newBus_def)
  ultimately show "consumeAll cs (publishAll ms newBus) = (map Some ms, newBus)"
    by (simp add: consumeAll_from_queue newBus_def)
qed (simp_all add: publishInbound_def busRun_invariant)

theorem inbound_fifo_witness:
  "publishInbound \<lparr>channel = ''cli'', chatId = ''main'', content = ''a'', threadId = None\<rparr>
       \<lparr>queue = [], resolvers = [4, 7]\<rparr>
     = (Some (4, \<lparr>channel = ''cli'', chatId = ''main'', content = ''a'', threadId = None\<rparr>),
        \<lparr>queue = [], resolvers = [7]\<rparr>) \<and>
   publishInbound \<lparr>channel = ''cli'', chatId = ''main'', content = ''a'', threadId = None\<rparr> newBus
     = (None, \<lparr>queue = [\<lparr>channel = ''cli'', chatId = ''main'', content = ''a'', threadId = None\<rparr>],
               resolvers = []\<rparr>) \<and>
   received (busRun [Consume,
                     Publish \<lparr>channel = ''cli'', chatId = ''main'', content = ''a'', threadId = None\<rparr>,
                     Publish \<lparr>channel = ''cli'', chatId = ''main'', content = ''b'', threadId = None\<rparr>,
                     Consume])
     = [(0, \<lparr>channel = ''cli'', chatId = ''main'', content = ''a'', threadId = None\<rparr>),
        (1, \<lparr>channel = ''cli'', chatId = ''main'', content = ''b'', threadId = None\<rparr>)] \<and>
   consumeAll [0, 1]
       (publishAll [\<lparr>channel = ''cli'', chatId = ''main'', content = ''a'', threadId = None\<rparr>,
                    \<lparr>channel = ''cli'', chatId = ''main'', content = ''b'', threadId = None\<rparr>] newBus)
     = ([Some \<lparr>channel = ''cli'', chatId = ''main'', content = ''a'', threadId = None\<rparr>,
         Some \<lparr>channel = ''cli'', chatId = ''main'', content = ''b'', threadId = None\<rparr>], newBus)"
  using inbound_fifo [of "\<lparr>queue = [], resolvers = [4, 7]\<rparr>" 4 "[7]"
          "\<lparr>channel = ''cli'', chatId = ''main'', content = ''a'', threadId = None\<rparr>"
          "[Consume,
            Publish \<lparr>channel = ''cli'', chatId = ''main'', content = ''a'', threadId = None\<rparr>,
            Publish \<lparr>channel = ''cli'', chatId = ''main'', content = ''b'', threadId = None\<rparr>,
            Consume]"
          "[0, 1]"
          "[\<lparr>channel = ''cli'', chatId = ''main'', content = ''a'', threadId = None\<rparr>,
            \<lparr>channel = ''cli'', chatId = ''main'', content = ''b'', threadId = None\<rparr>]"]
        inbound_fifo [of newBus 0 "[]"
          "\<lparr>channel = ''cli'', chatId = ''main'', content = ''a'', threadId = None\<rparr>" "[]" "[]" "[]"]
  by (simp add: newBus_def busRun_def busStep_def publishInbound_def consumeInbound_def)

section \<open>Session keys: building and parsing\<close>

lemma keyChar_facts:
  assumes "keyChar c"
  shows "c \<noteq> CHR '':''" and "\<not> isWhiteSpace c" and "lowerChar c = c"
  using assms by (auto simp: keyChar_def isWhiteSpace_def lowerChar_def Let_def)

lemma colon_facts: "\<not> isWhiteSpace CHR '':''" "lowerChar CHR '':'' = CHR '':''"
  by (simp_all add: isWhiteSpace_def lowerChar_def)

lemma keyChar_normalize: "c \<in> set (normalizeStr v) \<Longrightarrow> keyChar c"
  by (auto simp: normalizeStr_def keyChar_def)

lemma no_colon_normalize: "CHR '':'' \<notin> set (normalizeStr v)"
  using keyChar_normalize keyChar_facts(1) by blast

lemma normalize_empty_iff: "normalizeStr v = [] \<longleftrightarrow> trim v = []"
  by (simp add: normalizeStr_def toLowerCase_def)

lemma trim_clean: "\<forall>c\<in>set s. \<not> isWhiteSpace c \<Longrightarrow> trim s = s"
proof -
  assume a: "\<forall>c\<in>set s. \<not> isWhiteSpace c"
  then have "dropWhile isWhiteSpace s = s" by (cases s) auto
  moreover have "dropWhile isWhiteSpace (rev s) = rev s" using a by (cases "rev s") auto
  ultimately show ?thesis by (simp add: trim_def)
qed

lemma toLowerCase_clean: "\<forall>c\<in>set s. lowerChar c = c \<Longrightarrow> toLowerCase s = s"
  by (simp add: toLowerCase_def map_idI)

lemma indexOf_skip:
  "p \<notin> set u \<Longrightarrow> indexOf (p # ps) (u @ v) = map_option (\<lambda>i. length u + i) (indexOf (p # ps) v)"
proof (induction u)
  case Nil
  show ?case by (simp add: option.map_ident)
next
  case (Cons x u)
  then show ?case by (auto simp: option.map_comp comp_def)
qed

lemma indexOf_absent: "p \<notin> set s \<Longrightarrow> indexOf (p # ps) s = None"
  using indexOf_skip [of p s ps "[]"] by simp

lemma indexOf_here: "indexOf pat (pat @ v) = Some 0"
proof (cases "pat @ v")
  case Nil
  then show ?thesis by simp
next
  case (Cons a list)
  have "take (length pat) (pat @ v) = pat" by simp
  then show ?thesis unfolding Cons by simp
qed

lemma first_split_unique:
  "x \<notin> set u \<Longrightarrow> x \<notin> set u' \<Longrightarrow> u @ x # w = u' @ x # w' \<Longrightarrow> u = u'"
proof (induction u arbitrary: u')
  case Nil
  then show ?case by (cases u') auto
next
  case (Cons a u)
  then show ?case by (cases u') auto
qed

lemma thread_marker_not_early:
  assumes "CHR '':'' \<notin> set b" and "b \<noteq> ''thread''"
  shows "take 8 (CHR '':'' # b @ '':thread:'' @ t) \<noteq> '':thread:''"
proof
  assume "take 8 (CHR '':'' # b @ '':thread:'' @ t) = '':thread:''"
  then have eq: "take 7 (b @ '':thread:'' @ t) = ''thread:''" by simp
  show False
  proof (cases "7 \<le> length b")
    case True
    then have "take 7 b = ''thread:''" using eq by simp
    then have "CHR '':'' \<in> set (take 7 b)" by simp
    then show False using assms(1) by (meson in_set_takeD)
  next
    case False
    then obtain k where k: "7 - length b = Suc k" by (cases "7 - length b") auto
    from eq k have e2: "b @ CHR '':'' # take k (''thread:'' @ t) = ''thread'' @ CHR '':'' # []"
      by simp
    have nc: "CHR '':'' \<notin> set ''thread''" by simp
    have "b = ''thread''"
      by (rule first_split_unique [OF assms(1) nc e2])
    with assms(2) show False by simp
  qed
qed

lemma thread_marker_not_in_base:
  assumes "CHR '':'' \<notin> set b"
  shows "take 8 (CHR '':'' # b) \<noteq> '':thread:''"
proof
  assume "take 8 (CHR '':'' # b) = '':thread:''"
  then have "take 7 b = ''thread:''" by simp
  then have "CHR '':'' \<in> set (take 7 b)" by simp
  then show False using assms by (meson in_set_takeD)
qed

lemma parseBaseKey_joined:
  assumes "CHR '':'' \<notin> set a" and "a \<noteq> []" and "b \<noteq> []"
  shows "parseBaseKey (a @ CHR '':'' # b) = Some (a, b)"
proof -
  have "indexOf '':'' (a @ CHR '':'' # b) = Some (length a)"
    using indexOf_skip [OF assms(1), of "[]" "CHR '':'' # b"] by simp
  then show ?thesis using assms(2,3) by (simp add: parseBaseKey_def)
qed


lemma key_clean:
  assumes "\<forall>c\<in>set s. keyChar c \<or> c = CHR '':''"
  shows "toLowerCase (trim s) = s"
proof -
  have "\<forall>c\<in>set s. \<not> isWhiteSpace c" using assms keyChar_facts(2) colon_facts(1) by blast
  then have "trim s = s" by (rule trim_clean)
  moreover have "\<forall>c\<in>set s. lowerChar c = c" using assms keyChar_facts(3) colon_facts(2) by blast
  ultimately show ?thesis by (simp add: toLowerCase_clean)
qed

lemma marker_length: "length '':thread:'' = 8"
  by simp

lemma drop_whole: "n = length xs \<Longrightarrow> drop n (xs @ ys) = ys"
  by simp

lemma take_whole: "n = length xs \<Longrightarrow> take n (xs @ ys) = xs"
  by simp

lemma indexOf_marker_thread:
  assumes "CHR '':'' \<notin> set a" and "CHR '':'' \<notin> set b" and "b \<noteq> ''thread''"
  shows "indexOf '':thread:'' (a @ CHR '':'' # b @ '':thread:'' @ t) = Some (length a + Suc (length b))"
proof -
  have 1: "indexOf '':thread:'' (a @ CHR '':'' # b @ '':thread:'' @ t)
           = map_option (\<lambda>i. length a + i) (indexOf '':thread:'' (CHR '':'' # b @ '':thread:'' @ t))"
    by (rule indexOf_skip [OF assms(1)])
  have "take (length '':thread:'') (CHR '':'' # b @ '':thread:'' @ t) \<noteq> '':thread:''"
    unfolding marker_length by (rule thread_marker_not_early [OF assms(2,3)])
  then have 2: "indexOf '':thread:'' (CHR '':'' # b @ '':thread:'' @ t)
           = map_option Suc (indexOf '':thread:'' (b @ '':thread:'' @ t))"
    by (simp only: indexOf.simps(2) if_False)
  have 3: "indexOf '':thread:'' (b @ '':thread:'' @ t)
           = map_option (\<lambda>i. length b + i) (indexOf '':thread:'' ('':thread:'' @ t))"
    by (rule indexOf_skip [OF assms(2)])
  have 4: "indexOf '':thread:'' ('':thread:'' @ t) = Some 0"
    by (rule indexOf_here)
  show ?thesis unfolding 1 2 3 4 by simp
qed

lemma indexOf_marker_base:
  assumes "CHR '':'' \<notin> set a" and "CHR '':'' \<notin> set b"
  shows "indexOf '':thread:'' (a @ CHR '':'' # b) = None"
proof -
  have 1: "indexOf '':thread:'' (a @ CHR '':'' # b)
           = map_option (\<lambda>i. length a + i) (indexOf '':thread:'' (CHR '':'' # b))"
    by (rule indexOf_skip [OF assms(1)])
  have "take (length '':thread:'') (CHR '':'' # b) \<noteq> '':thread:''"
    unfolding marker_length by (rule thread_marker_not_in_base [OF assms(2)])
  then have 2: "indexOf '':thread:'' (CHR '':'' # b) = map_option Suc (indexOf '':thread:'' b)"
    by (simp only: indexOf.simps(2) if_False)
  have 3: "indexOf '':thread:'' b = None"
    by (rule indexOf_absent [OF assms(2)])
  show ?thesis unfolding 1 2 3 by simp
qed

text \<open>
  C3 (amended). For parts whose channel and chat id are not blank (something is
  left after trimming), and whose chat id does not normalise to the word \<open>thread\<close>
  when a thread id is given, \<open>parseSessionKey (buildSessionKey p)\<close> succeeds and
  returns the componentwise normalisation of \<open>p\<close>, with the normalised thread id when
  \<open>p\<close> has a non-empty one and no thread id otherwise.
\<close>

theorem parse_build_roundtrip:
  assumes "trim (channel_k p) \<noteq> []" and "trim (chatId_k p) \<noteq> []"
    and "threadId_k p = None \<or> threadId_k p = Some [] \<or> normalizeStr (chatId_k p) \<noteq> ''thread''"
  shows "parseSessionKey (buildSessionKey p) = Some (normalizeParts p)"
proof -
  define a where "a = normalizeStr (channel_k p)"
  define b where "b = normalizeStr (chatId_k p)"
  have a: "a \<noteq> []" "CHR '':'' \<notin> set a" "\<forall>c\<in>set a. keyChar c"
    using assms(1) by (simp_all add: a_def normalize_empty_iff no_colon_normalize keyChar_normalize)
  have b: "b \<noteq> []" "CHR '':'' \<notin> set b" "\<forall>c\<in>set b. keyChar c"
    using assms(2) by (simp_all add: b_def normalize_empty_iff no_colon_normalize keyChar_normalize)
  have base: "parseBaseKey (a @ CHR '':'' # b) = Some (a, b)"
    using a(2,1) b(1) by (rule parseBaseKey_joined)
  show ?thesis
  proof (cases "\<exists>t. threadId_k p = Some t \<and> t \<noteq> []")
    case True
    then obtain t where t: "threadId_k p = Some t" "t \<noteq> []" by blast
    define t' where "t' = normalizeStr t"
    define key where "key = a @ CHR '':'' # b @ '':thread:'' @ t'"
    have bt: "b \<noteq> ''thread''" using assms(3) t by (simp add: b_def)
    have build: "buildSessionKey p = key"
      using t by (simp add: buildSessionKey_def key_def a_def b_def t'_def)
    have "\<forall>c\<in>set key. keyChar c \<or> c = CHR '':''"
      using a(3) b(3) keyChar_normalize [of _ t] by (auto simp: key_def t'_def keyChar_def)
    then have clean: "toLowerCase (trim key) = key" by (rule key_clean)
    have ne: "key \<noteq> []" by (simp add: key_def)
    have idx: "indexOf '':thread:'' key = Some (Suc (length a + length b))"
      unfolding key_def using indexOf_marker_thread [OF a(2) b(2) bt] by simp
    have k1: "key = (a @ CHR '':'' # b) @ '':thread:'' @ t'" by (simp add: key_def)
    have k2: "key = ((a @ CHR '':'' # b) @ '':thread:'') @ t'" by (simp add: key_def)
    have tk: "take (Suc (length a + length b)) key = a @ CHR '':'' # b"
      by (subst k1, rule take_whole) simp
    have dr: "drop (9 + (length a + length b)) key = t'"
      by (subst k2, rule drop_whole) simp
    have "parseSessionKey key = Some \<lparr>channel_k = a, chatId_k = b, threadId_k = Some t'\<rparr>"
      unfolding parseSessionKey_def Let_def clean idx using ne
      by (simp add: tk dr base del: take_append drop_append)
    then show ?thesis using t build by (simp add: normalizeParts_def a_def b_def t'_def)
  next
    case False
    define key where "key = a @ CHR '':'' # b"
    have build: "buildSessionKey p = key"
      using False by (auto simp: buildSessionKey_def Let_def key_def a_def b_def split: option.splits)
    have "\<forall>c\<in>set key. keyChar c \<or> c = CHR '':''"
      using a(3) b(3) by (auto simp: key_def)
    then have clean: "toLowerCase (trim key) = key" by (rule key_clean)
    have ne: "key \<noteq> []" by (simp add: key_def)
    have idx: "indexOf '':thread:'' key = None"
      unfolding key_def using a(2) b(2) by (rule indexOf_marker_base)
    have "parseSessionKey key = Some \<lparr>channel_k = a, chatId_k = b, threadId_k = None\<rparr>"
      unfolding parseSessionKey_def Let_def clean idx using ne base
      by (simp add: key_def)
    then show ?thesis using False build
      by (auto simp: normalizeParts_def a_def b_def split: option.splits)
  qed
qed

theorem parse_build_roundtrip_witness:
  "trim ''Discord'' \<noteq> [] \<and> trim '' Chan#1 '' \<noteq> [] \<and>
   parseSessionKey (buildSessionKey
       \<lparr>channel_k = ''Discord'', chatId_k = '' Chan#1 '', threadId_k = Some ''T1''\<rparr>)
     = Some \<lparr>channel_k = ''discord'', chatId_k = ''chan-1'', threadId_k = Some ''t1''\<rparr>"
proof -
  let ?p = "\<lparr>channel_k = ''Discord'', chatId_k = '' Chan#1 '', threadId_k = Some ''T1''\<rparr>"
  have h1: "trim (channel_k ?p) \<noteq> []" by (simp add: trim_def isWhiteSpace_def)
  have h2: "trim (chatId_k ?p) \<noteq> []" by (simp add: trim_def isWhiteSpace_def)
  have h3: "threadId_k ?p = None \<or> threadId_k ?p = Some [] \<or> normalizeStr (chatId_k ?p) \<noteq> ''thread''"
    by (simp add: normalizeStr_def trim_def isWhiteSpace_def toLowerCase_def lowerChar_def keyChar_def)
  have "normalizeParts ?p = \<lparr>channel_k = ''discord'', chatId_k = ''chan-1'', threadId_k = Some ''t1''\<rparr>"
    by code_simp
  with parse_build_roundtrip [OF h1 h2 h3] h1 h2 show ?thesis by simp
qed

text \<open>
  The claim as written fails. A channel of one blank is not empty, yet its key is
  rejected; and with a thread id the chat id \<open>thread\<close> builds a key whose first
  \<open>:thread:\<close> marker is not the one \<open>buildSessionKey\<close> wrote.
\<close>

theorem parse_build_roundtrip_counterexample:
  "channel_k \<lparr>channel_k = '' '', chatId_k = ''main'', threadId_k = None\<rparr> \<noteq> [] \<and>
   chatId_k \<lparr>channel_k = '' '', chatId_k = ''main'', threadId_k = None\<rparr> \<noteq> [] \<and>
   buildSessionKey \<lparr>channel_k = '' '', chatId_k = ''main'', threadId_k = None\<rparr> = '':main'' \<and>
   parseSessionKey (buildSessionKey \<lparr>channel_k = '' '', chatId_k = ''main'', threadId_k = None\<rparr>) = None \<and>
   buildSessionKey \<lparr>channel_k = ''discord'', chatId_k = ''thread'', threadId_k = Some ''t1''\<rparr>
     = ''discord:thread:thread:t1'' \<and>
   parseSessionKey (buildSessionKey
       \<lparr>channel_k = ''discord'', chatId_k = ''thread'', threadId_k = Some ''t1''\<rparr>) = None"
  by (simp add: parseSessionKey_def buildSessionKey_def normalizeStr_def trim_def toLowerCase_def
      isWhiteSpace_def parseBaseKey_def lowerChar_def keyChar_def)

section \<open>Stopping a subagent\<close>

lemma announce_target:
  "channel (announceResult sa outcome) = channel_r (requester sa) \<and>
   chatId (announceResult sa outcome) = chatId_r (requester sa)"
  by (simp add: announceResult_def Let_def)

lemma stop_refused:
  assumes "\<forall>sa. subagents mgr i = Some sa \<longrightarrow> status sa \<noteq> Running"
  shows "stop now i mgr = (False, mgr)"
  using assms by (cases "subagents mgr i") (simp_all add: stop_def)

lemma stop_running:
  assumes "subagents mgr i = Some sa" and "status sa = Running"
  shows "stop now i mgr =
           (True, mgr\<lparr>subagents := (subagents mgr)(i \<mapsto>
                        sa\<lparr>abortController := map_option (\<lambda>_. True) (abortController sa),
                           status := Completed, completedAt := Some now,
                           result := Some ''Stopped by request'',
                           stats := Some \<lparr>runtimeMs = now - createdAt sa,
                                          tokensIn = None, tokensOut = None\<rparr>\<rparr>),
                      outbound := outbound mgr @
                        [announceResult
                           (sa\<lparr>abortController := map_option (\<lambda>_. True) (abortController sa),
                               status := Completed, completedAt := Some now,
                               result := Some ''Stopped by request'',
                               stats := Some \<lparr>runtimeMs = now - createdAt sa,
                                              tokensIn = None, tokensOut = None\<rparr>\<rparr>)
                           ''stopped'']\<rparr>)"
  using assms by (simp add: stop_def Let_def)

text \<open>
  C10. \<open>stop\<close> changes nothing when it fails: for an unknown id and for a subagent
  that is not running it returns \<open>false\<close> and leaves the manager as it was, every
  record and the list of published messages included. It returns \<open>true\<close> exactly
  when the addressed subagent is running; then that record alone is rewritten
  (completed, result \<open>Stopped by request\<close>, completion time, a stats block with the
  runtime, the abort signal raised when there is a controller) and one announcement
  to the requester is published.
\<close>

theorem stop_atomic_on_failure:
  "((\<forall>sa. subagents mgr i = Some sa \<longrightarrow> status sa \<noteq> Running) \<longrightarrow> stop now i mgr = (False, mgr)) \<and>
   (fst (stop now i mgr) \<longleftrightarrow> (\<exists>sa. subagents mgr i = Some sa \<and> status sa = Running)) \<and>
   (subagents mgr i = Some sa \<and> status sa = Running \<longrightarrow>
      (\<exists>sa'. stop now i mgr =
                (True, mgr\<lparr>subagents := (subagents mgr)(i \<mapsto> sa'),
                           outbound := outbound mgr @ [announceResult sa' ''stopped'']\<rparr>) \<and>
             status sa' = Completed \<and>
             result sa' = Some ''Stopped by request'' \<and>
             completedAt sa' = Some now \<and>
             stats sa' = Some \<lparr>runtimeMs = now - createdAt sa, tokensIn = None, tokensOut = None\<rparr> \<and>
             abortController sa' = map_option (\<lambda>_. True) (abortController sa) \<and>
             id_sa sa' = id_sa sa \<and> task sa' = task sa \<and> label sa' = label sa \<and>
             createdAt sa' = createdAt sa \<and> error sa' = error sa \<and>
             sessionKey sa' = sessionKey sa \<and> requester sa' = requester sa \<and>
             channel (announceResult sa' ''stopped'') = channel_r (requester sa) \<and>
             chatId (announceResult sa' ''stopped'') = chatId_r (requester sa)))"
proof (intro conjI impI)
  assume "\<forall>sa. subagents mgr i = Some sa \<longrightarrow> status sa \<noteq> Running"
  then show "stop now i mgr = (False, mgr)" by (rule stop_refused)
next
  show "fst (stop now i mgr) \<longleftrightarrow> (\<exists>sa. subagents mgr i = Some sa \<and> status sa = Running)"
  proof (cases "\<exists>sa. subagents mgr i = Some sa \<and> status sa = Running")
    case True
    then obtain sa where "subagents mgr i = Some sa" "status sa = Running" by blast
    from stop_running [OF this] True show ?thesis by simp
  next
    case False
    then have "\<forall>sa. subagents mgr i = Some sa \<longrightarrow> status sa \<noteq> Running" by blast
    from stop_refused [OF this] False show ?thesis by simp
  qed
next
  assume "subagents mgr i = Some sa \<and> status sa = Running"
  then have r: "subagents mgr i = Some sa" "status sa = Running" by simp_all
  show "\<exists>sa'. stop now i mgr =
                (True, mgr\<lparr>subagents := (subagents mgr)(i \<mapsto> sa'),
                           outbound := outbound mgr @ [announceResult sa' ''stopped'']\<rparr>) \<and>
             status sa' = Completed \<and>
             result sa' = Some ''Stopped by request'' \<and>
             completedAt sa' = Some now \<and>
             stats sa' = Some \<lparr>runtimeMs = now - createdAt sa, tokensIn = None, tokensOut = None\<rparr> \<and>
             abortController sa' = map_option (\<lambda>_. True) (abortController sa) \<and>
             id_sa sa' = id_sa sa \<and> task sa' = task sa \<and> label sa' = label sa \<and>
             createdAt sa' = createdAt sa \<and> error sa' = error sa \<and>
             sessionKey sa' = sessionKey sa \<and> requester sa' = requester sa \<and>
             channel (announceResult sa' ''stopped'') = channel_r (requester sa) \<and>
             chatId (announceResult sa' ''stopped'') = chatId_r (requester sa)"
    by (rule exI, rule conjI, rule stop_running [OF r]) (simp add: announce_target)
qed

theorem stop_atomic_on_failure_witness:
  "stop 6000 ''zz''
      \<lparr>subagents = [''ab12cd34'' \<mapsto> \<lparr>id_sa = ''ab12cd34'', task = ''count files'', label = None,
          status = Running, createdAt = 1000, completedAt = None, result = None, error = None,
          sessionKey = ''subagent:main:ab12cd34'',
          requester = \<lparr>channel_r = ''cli'', chatId_r = ''main''\<rparr>,
          stats = None, abortController = Some False\<rparr>], outbound = []\<rparr>
    = (False,
       \<lparr>subagents = [''ab12cd34'' \<mapsto> \<lparr>id_sa = ''ab12cd34'', task = ''count files'', label = None,
          status = Running, createdAt = 1000, completedAt = None, result = None, error = None,
          sessionKey = ''subagent:main:ab12cd34'',
          requester = \<lparr>channel_r = ''cli'', chatId_r = ''main''\<rparr>,
          stats = None, abortController = Some False\<rparr>], outbound = []\<rparr>) \<and>
   fst (stop 6000 ''ab12cd34''
      \<lparr>subagents = [''ab12cd34'' \<mapsto> \<lparr>id_sa = ''ab12cd34'', task = ''count files'', label = None,
          status = Running, createdAt = 1000, completedAt = None, result = None, error = None,
          sessionKey = ''subagent:main:ab12cd34'',
          requester = \<lparr>channel_r = ''cli'', chatId_r = ''main''\<rparr>,
          stats = None, abortController = Some False\<rparr>], outbound = []\<rparr>) \<and>
   map content (outbound (snd (stop 6000 ''ab12cd34''
      \<lparr>subagents = [''ab12cd34'' \<mapsto> \<lparr>id_sa = ''ab12cd34'', task = ''count files'', label = None,
          status = Running, createdAt = 1000, completedAt = None, result = None, error = None,
          sessionKey = ''subagent:main:ab12cd34'',
          requester = \<lparr>channel_r = ''cli'', chatId_r = ''main''\<rparr>,
          stats = None, abortController = Some False\<rparr>], outbound = []\<rparr>)))
    = [''[Subagent ab12cd34 stopped]'' @ newline @ newline @ ''Findings:'' @ newline @
       ''Stopped by request'' @ newline @ newline @
       ''Stats: runtime 5s | session subagent:main:ab12cd34'']"
proof -
  let ?sa = "\<lparr>id_sa = ''ab12cd34'', task = ''count files'', label = None,
          status = Running, createdAt = 1000, completedAt = None, result = None, error = None,
          sessionKey = ''subagent:main:ab12cd34'',
          requester = \<lparr>channel_r = ''cli'', chatId_r = ''main''\<rparr>,
          stats = None, abortController = Some False\<rparr>"
  let ?mgr = "\<lparr>subagents = [''ab12cd34'' \<mapsto> ?sa], outbound = []\<rparr>"
  have unknown: "\<forall>sa. subagents ?mgr ''zz'' = Some sa \<longrightarrow> status sa \<noteq> Running" by simp
  have known: "subagents ?mgr ''ab12cd34'' = Some ?sa \<and> status ?sa = Running" by simp
  have shown: "showInt 5 = ''5''" by code_simp
  have rounded: "mathRound 5 = 5" by (simp add: mathRound_def)
  note t1 = stop_atomic_on_failure [of ?mgr "''zz''" 6000 ?sa]
  note t2 = stop_atomic_on_failure [of ?mgr "''ab12cd34''" 6000 ?sa]
  from t1 unknown have a: "stop 6000 ''zz'' ?mgr = (False, ?mgr)" by blast
  from t2 known have b: "fst (stop 6000 ''ab12cd34'' ?mgr)" by blast
  have c: "map content (outbound (snd (stop 6000 ''ab12cd34'' ?mgr)))
    = [''[Subagent ab12cd34 stopped]'' @ newline @ newline @ ''Findings:'' @ newline @
       ''Stopped by request'' @ newline @ newline @
       ''Stats: runtime 5s | session subagent:main:ab12cd34'']"
    by (simp add: stop_def announceResult_def Let_def interpolate_def shown rounded)
  from a b c show ?thesis by (intro conjI)
qed

section \<open>Session scope of a memory search\<close>

lemma sliceTo_subset: "set (sliceTo n xs) \<subseteq> set xs"
  by (auto simp: sliceTo_def dest: in_set_takeD)

lemma sliceTo_length: "0 \<le> n \<Longrightarrow> length (sliceTo n xs) \<le> nat n"
  by (simp add: sliceTo_def)

lemma sliceTo_all: "int (length xs) \<le> n \<Longrightarrow> sliceTo n xs = xs"
  by (simp add: sliceTo_def)

lemma entry_scoreEntry: "entry (scoreEntry now opts e) = e"
  by (simp add: scoreEntry_def Let_def)

lemma tagFilter_subset: "set (tagFilter opts es) \<subseteq> set es"
  by (auto simp: tagFilter_def split: option.splits)

lemma candidates_entries:
  "r \<in> set (candidates now opts es) \<Longrightarrow> entry r \<in> set (tagFilter opts (sessionFilter opts es))"
  by (auto simp: candidates_def Let_def entry_scoreEntry)

lemma search_subset: "set (search now opts es) \<subseteq> set (candidates now opts es)"
  using sliceTo_subset by (fastforce simp: search_def Let_def)

lemma sessionFilter_char:
  "sessionFilter opts es =
     filter (\<lambda>e. \<not> truthy (sessionId_o opts) \<or> \<not> truthy (sessionId e) \<or> sessionId e = sessionId_o opts) es"
  by (simp add: sessionFilter_def)

lemma candidates_member:
  "scoreEntry now opts e \<in> set (candidates now opts es) \<longleftrightarrow>
     e \<in> set (tagFilter opts (sessionFilter opts es)) \<and>
     score (scoreEntry now opts e) \<ge> (case minScore opts of Some m \<Rightarrow> m | None \<Rightarrow> 0)"
proof -
  have "scoreEntry now opts e = scoreEntry now opts e' \<Longrightarrow> e = e'" for e'
    using entry_scoreEntry by metis
  then show ?thesis by (auto simp: candidates_def Let_def)
qed

lemma search_uncut:
  assumes "int (length (candidates now opts es)) \<le> (case maxResults opts of Some m \<Rightarrow> m | None \<Rightarrow> 10)"
  shows "set (search now opts es) = set (candidates now opts es)"
proof -
  have "int (length (sort_key (\<lambda>r. - score r) (candidates now opts es)))
          \<le> (case maxResults opts of Some m \<Rightarrow> m | None \<Rightarrow> 10)"
    using assms by simp
  then have "search now opts es = sort_key (\<lambda>r. - score r) (candidates now opts es)"
    unfolding search_def Let_def by (rule sliceTo_all)
  then show ?thesis by simp
qed

text \<open>
  C6 (amended). With a non-empty \<open>sessionId\<close> the session filter keeps exactly the
  entries whose own \<open>sessionId\<close> is absent, empty or equal to it; with an absent or
  empty \<open>sessionId\<close> it keeps all. A search returns only entries that passed this
  filter, so a private entry is never returned to a search that names another
  session. Of the entries that passed, those that also pass the tag filter and
  reach \<open>minScore\<close> are the candidates; all of them are returned when there are no
  more than \<open>maxResults\<close>, and never more than \<open>maxResults\<close> are.
\<close>

theorem search_session_scope:
  "sessionFilter opts es =
     filter (\<lambda>e. \<not> truthy (sessionId_o opts) \<or> \<not> truthy (sessionId e) \<or> sessionId e = sessionId_o opts) es \<and>
   (\<forall>r \<in> set (search now opts es). entry r \<in> set (sessionFilter opts es)) \<and>
   (\<forall>r \<in> set (search now opts es).
      truthy (sessionId_o opts) \<and> truthy (sessionId (entry r)) \<longrightarrow> sessionId (entry r) = sessionId_o opts) \<and>
   (scoreEntry now opts e \<in> set (candidates now opts es) \<longleftrightarrow>
      e \<in> set (tagFilter opts (sessionFilter opts es)) \<and>
      score (scoreEntry now opts e) \<ge> (case minScore opts of Some m \<Rightarrow> m | None \<Rightarrow> 0)) \<and>
   (int (length (candidates now opts es)) \<le> (case maxResults opts of Some m \<Rightarrow> m | None \<Rightarrow> 10) \<longrightarrow>
      set (search now opts es) = set (candidates now opts es)) \<and>
   (0 \<le> (case maxResults opts of Some m \<Rightarrow> m | None \<Rightarrow> 10) \<longrightarrow>
      int (length (search now opts es)) \<le> (case maxResults opts of Some m \<Rightarrow> m | None \<Rightarrow> 10))"
proof (intro conjI ballI impI)
  show "sessionFilter opts es =
     filter (\<lambda>e. \<not> truthy (sessionId_o opts) \<or> \<not> truthy (sessionId e) \<or> sessionId e = sessionId_o opts) es"
    by (rule sessionFilter_char)
next
  fix r assume "r \<in> set (search now opts es)"
  then have "r \<in> set (candidates now opts es)" using search_subset by blast
  then have "entry r \<in> set (tagFilter opts (sessionFilter opts es))" by (rule candidates_entries)
  then show "entry r \<in> set (sessionFilter opts es)" using tagFilter_subset by blast
next
  fix r assume r: "r \<in> set (search now opts es)"
    and t: "truthy (sessionId_o opts) \<and> truthy (sessionId (entry r))"
  from r have "r \<in> set (candidates now opts es)" using search_subset by blast
  then have "entry r \<in> set (tagFilter opts (sessionFilter opts es))" by (rule candidates_entries)
  then have "entry r \<in> set (sessionFilter opts es)" using tagFilter_subset by blast
  with t show "sessionId (entry r) = sessionId_o opts" by (simp add: sessionFilter_def)
next
  show "scoreEntry now opts e \<in> set (candidates now opts es) \<longleftrightarrow>
      e \<in> set (tagFilter opts (sessionFilter opts es)) \<and>
      score (scoreEntry now opts e) \<ge> (case minScore opts of Some m \<Rightarrow> m | None \<Rightarrow> 0)"
    by (rule candidates_member)
next
  assume "int (length (candidates now opts es)) \<le> (case maxResults opts of Some m \<Rightarrow> m | None \<Rightarrow> 10)"
  then show "set (search now opts es) = set (candidates now opts es)" by (rule search_uncut)
next
  assume nn: "0 \<le> (case maxResults opts of Some m \<Rightarrow> m | None \<Rightarrow> 10)"
  then have "length (search now opts es) \<le> nat (case maxResults opts of Some m \<Rightarrow> m | None \<Rightarrow> 10)"
    unfolding search_def Let_def by (rule sliceTo_length)
  then show "int (length (search now opts es)) \<le> (case maxResults opts of Some m \<Rightarrow> m | None \<Rightarrow> 10)"
    using nn by linarith
qed

lemmas search_eval =
  search_def candidates_def sessionFilter_def tagFilter_def scoreEntry_def sliceTo_def truthy_def Let_def

theorem search_session_scope_witness:
  "sessionFilter \<lparr>query = None, tags_o = None, sessionId_o = Some ''s1'', maxResults = None, minScore = None, weights = None\<rparr>
     [\<lparr>id_m = ''m1'', createdAt_m = 1000, content_m = ''deploy on friday'', importance = 1 / 2, tags = None, sessionId = None\<rparr>,
      \<lparr>id_m = ''m2'', createdAt_m = 1000, content_m = ''likes tea'', importance = 9 / 10, tags = None, sessionId = Some ''s1''\<rparr>,
      \<lparr>id_m = ''m3'', createdAt_m = 1000, content_m = ''likes coffee'', importance = 1 / 2, tags = None, sessionId = Some ''s2''\<rparr>]
   = [\<lparr>id_m = ''m1'', createdAt_m = 1000, content_m = ''deploy on friday'', importance = 1 / 2, tags = None, sessionId = None\<rparr>,
      \<lparr>id_m = ''m2'', createdAt_m = 1000, content_m = ''likes tea'', importance = 9 / 10, tags = None, sessionId = Some ''s1''\<rparr>] \<and>
   map entry (search 1000 \<lparr>query = None, tags_o = None, sessionId_o = Some ''s1'', maxResults = None, minScore = None, weights = None\<rparr>
     [\<lparr>id_m = ''m1'', createdAt_m = 1000, content_m = ''deploy on friday'', importance = 1 / 2, tags = None, sessionId = None\<rparr>,
      \<lparr>id_m = ''m2'', createdAt_m = 1000, content_m = ''likes tea'', importance = 9 / 10, tags = None, sessionId = Some ''s1''\<rparr>,
      \<lparr>id_m = ''m3'', createdAt_m = 1000, content_m = ''likes coffee'', importance = 1 / 2, tags = None, sessionId = Some ''s2''\<rparr>])
   = [\<lparr>id_m = ''m2'', createdAt_m = 1000, content_m = ''likes tea'', importance = 9 / 10, tags = None, sessionId = Some ''s1''\<rparr>,
      \<lparr>id_m = ''m1'', createdAt_m = 1000, content_m = ''deploy on friday'', importance = 1 / 2, tags = None, sessionId = None\<rparr>] \<and>
   set (search 1000 \<lparr>query = None, tags_o = None, sessionId_o = Some ''s1'', maxResults = None, minScore = None, weights = None\<rparr>
     [\<lparr>id_m = ''m1'', createdAt_m = 1000, content_m = ''deploy on friday'', importance = 1 / 2, tags = None, sessionId = None\<rparr>,
      \<lparr>id_m = ''m2'', createdAt_m = 1000, content_m = ''likes tea'', importance = 9 / 10, tags = None, sessionId = Some ''s1''\<rparr>,
      \<lparr>id_m = ''m3'', createdAt_m = 1000, content_m = ''likes coffee'', importance = 1 / 2, tags = None, sessionId = Some ''s2''\<rparr>])
   = set (candidates 1000 \<lparr>query = None, tags_o = None, sessionId_o = Some ''s1'', maxResults = None, minScore = None, weights = None\<rparr>
     [\<lparr>id_m = ''m1'', createdAt_m = 1000, content_m = ''deploy on friday'', importance = 1 / 2, tags = None, sessionId = None\<rparr>,
      \<lparr>id_m = ''m2'', createdAt_m = 1000, content_m = ''likes tea'', importance = 9 / 10, tags = None, sessionId = Some ''s1''\<rparr>,
      \<lparr>id_m = ''m3'', createdAt_m = 1000, content_m = ''likes coffee'', importance = 1 / 2, tags = None, sessionId = Some ''s2''\<rparr>])"
proof -
  let ?opts = "\<lparr>query = None, tags_o = None, sessionId_o = Some ''s1'', maxResults = None, minScore = None, weights = None\<rparr>"
  let ?es = "[\<lparr>id_m = ''m1'', createdAt_m = 1000, content_m = ''deploy on friday'', importance = 1 / 2, tags = None, sessionId = None\<rparr>,
      \<lparr>id_m = ''m2'', createdAt_m = 1000, content_m = ''likes tea'', importance = 9 / 10, tags = None, sessionId = Some ''s1''\<rparr>,
      \<lparr>id_m = ''m3'', createdAt_m = 1000, content_m = ''likes coffee'', importance = 1 / 2, tags = None, sessionId = Some ''s2''\<rparr>]"
  note inst = search_session_scope [of ?opts ?es 1000 "\<lparr>id_m = ''m1'', createdAt_m = 1000, content_m = ''deploy on friday'', importance = 1 / 2, tags = None, sessionId = None\<rparr>"]
  have res: "map entry (search 1000 ?opts ?es) = [\<lparr>id_m = ''m2'', createdAt_m = 1000, content_m = ''likes tea'', importance = 9 / 10, tags = None, sessionId = Some ''s1''\<rparr>,
      \<lparr>id_m = ''m1'', createdAt_m = 1000, content_m = ''deploy on friday'', importance = 1 / 2, tags = None, sessionId = None\<rparr>]"
    by (simp add: search_eval)
  have len: "int (length (candidates 1000 ?opts ?es)) \<le> (case maxResults ?opts of Some m \<Rightarrow> m | None \<Rightarrow> 10)"
    by (simp add: search_eval)
  from inst have "sessionFilter ?opts ?es = filter (\<lambda>e. \<not> truthy (sessionId_o ?opts) \<or> \<not> truthy (sessionId e) \<or> sessionId e = sessionId_o ?opts) ?es"
    by (rule conjunct1)
  then have a: "sessionFilter ?opts ?es = [\<lparr>id_m = ''m1'', createdAt_m = 1000, content_m = ''deploy on friday'', importance = 1 / 2, tags = None, sessionId = None\<rparr>,
      \<lparr>id_m = ''m2'', createdAt_m = 1000, content_m = ''likes tea'', importance = 9 / 10, tags = None, sessionId = Some ''s1''\<rparr>]"
    by (simp add: truthy_def)
  from inst len have c: "set (search 1000 ?opts ?es) = set (candidates 1000 ?opts ?es)"
    by blast
  from a res c show ?thesis by (intro conjI)
qed

text \<open>
  The claim as written fails: the search below names a session, both entries are
  global and no tag or query is given, yet with \<open>maxResults = 1\<close> only the better
  one is returned. And an empty \<open>sessionId\<close>, though supplied, filters nothing: the
  private entry of another session is kept.
\<close>

theorem search_session_scope_counterexample:
  "map entry (search 1000 \<lparr>query = None, tags_o = None, sessionId_o = Some ''s1'', maxResults = Some 1, minScore = None, weights = None\<rparr>
     [\<lparr>id_m = ''m1'', createdAt_m = 1000, content_m = ''deploy on friday'', importance = 1 / 2, tags = None, sessionId = None\<rparr>,
      \<lparr>id_m = ''m4'', createdAt_m = 1000, content_m = ''release notes'', importance = 1 / 4, tags = None, sessionId = None\<rparr>])
   = [\<lparr>id_m = ''m1'', createdAt_m = 1000, content_m = ''deploy on friday'', importance = 1 / 2, tags = None, sessionId = None\<rparr>] \<and>
   sessionFilter \<lparr>query = None, tags_o = None, sessionId_o = Some [], maxResults = None, minScore = None, weights = None\<rparr>
     [\<lparr>id_m = ''m3'', createdAt_m = 1000, content_m = ''likes coffee'', importance = 1 / 2, tags = None, sessionId = Some ''s2''\<rparr>]
   = [\<lparr>id_m = ''m3'', createdAt_m = 1000, content_m = ''likes coffee'', importance = 1 / 2, tags = None, sessionId = Some ''s2''\<rparr>]"
  by (simp add: search_eval)

section \<open>Reconciling agents with the disk\<close>

lemma reconcileAgent_no_meta:
  "metaFile dir = None \<Longrightarrow> reconcileAgent env agentsDir agentId dir np = (None, dir, np)"
  by (simp add: reconcileAgent_def)

lemma load_frame:
  "name \<notin> set names \<Longrightarrow>
   agents (loadExistingAgents env agentsDir names st) name = agents st name \<and>
   dirs (loadExistingAgents env agentsDir names st) name = dirs st name"
proof (induction names arbitrary: st)
  case Nil
  show ?case by simp
next
  case (Cons n ns)
  then have ne: "n \<noteq> name" and rest: "name \<notin> set ns" by auto
  show ?case
  proof (cases "dirs st n")
    case None
    then show ?thesis using Cons.IH [OF rest, of st] by simp
  next
    case (Some d)
    obtain info d' np where r: "reconcileAgent env agentsDir n d (nextPort st) = (info, d', np)"
      by (cases "reconcileAgent env agentsDir n d (nextPort st)") auto
    define st1 where "st1 = st\<lparr>agents := (case info of Some i \<Rightarrow> (agents st)(n \<mapsto> i) | None \<Rightarrow> agents st),
                    dirs := (dirs st)(n \<mapsto> d'), nextPort := np\<rparr>"
    have "agents st1 name = agents st name" "dirs st1 name = dirs st name"
      using ne by (auto simp: st1_def split: option.splits)
    moreover have "loadExistingAgents env agentsDir (n # ns) st = loadExistingAgents env agentsDir ns st1"
      using Some r by (simp add: st1_def)
    ultimately show ?thesis using Cons.IH [OF rest, of st1] by simp
  qed
qed

lemma load_at:
  "distinct names \<Longrightarrow> name \<in> set names \<Longrightarrow> dirs st name = Some dir \<Longrightarrow>
   \<exists>np. agents (loadExistingAgents env agentsDir names st) name =
           (case fst (reconcileAgent env agentsDir name dir np) of
              Some i \<Rightarrow> Some i | None \<Rightarrow> agents st name) \<and>
        dirs (loadExistingAgents env agentsDir names st) name =
           Some (fst (snd (reconcileAgent env agentsDir name dir np)))"
proof (induction names arbitrary: st)
  case Nil
  then show ?case by simp
next
  case (Cons n ns)
  show ?case
  proof (cases "n = name")
    case True
    obtain info d' np where r: "reconcileAgent env agentsDir name dir (nextPort st) = (info, d', np)"
      by (cases "reconcileAgent env agentsDir name dir (nextPort st)") auto
    define st1 where "st1 = st\<lparr>agents := (case info of Some i \<Rightarrow> (agents st)(name \<mapsto> i) | None \<Rightarrow> agents st),
                    dirs := (dirs st)(name \<mapsto> d'), nextPort := np\<rparr>"
    have step: "loadExistingAgents env agentsDir (n # ns) st = loadExistingAgents env agentsDir ns st1"
      using True Cons.prems(3) r by (simp add: st1_def)
    have "name \<notin> set ns" using Cons.prems(1) True by simp
    from load_frame [OF this, of env agentsDir st1]
    have "agents (loadExistingAgents env agentsDir ns st1) name = agents st1 name"
      "dirs (loadExistingAgents env agentsDir ns st1) name = dirs st1 name" by simp_all
    moreover have "agents st1 name = (case info of Some i \<Rightarrow> Some i | None \<Rightarrow> agents st name)"
      "dirs st1 name = Some d'"
      by (auto simp: st1_def split: option.splits)
    ultimately show ?thesis unfolding step using r by (intro exI [of _ "nextPort st"]) simp
  next
    case False
    then have mem: "name \<in> set ns" using Cons.prems(2) by simp
    have dist: "distinct ns" using Cons.prems(1) by simp
    show ?thesis
    proof (cases "dirs st n")
      case None
      then show ?thesis using Cons.IH [OF dist mem Cons.prems(3)] by simp
    next
      case (Some d)
      obtain info d' np where r: "reconcileAgent env agentsDir n d (nextPort st) = (info, d', np)"
        by (cases "reconcileAgent env agentsDir n d (nextPort st)") auto
      define st1 where "st1 = st\<lparr>agents := (case info of Some i \<Rightarrow> (agents st)(n \<mapsto> i) | None \<Rightarrow> agents st),
                      dirs := (dirs st)(n \<mapsto> d'), nextPort := np\<rparr>"
      have keep: "agents st1 name = agents st name" "dirs st1 name = Some dir"
        using False Cons.prems(3) by (auto simp: st1_def split: option.splits)
      have step: "loadExistingAgents env agentsDir (n # ns) st = loadExistingAgents env agentsDir ns st1"
        using Some r by (simp add: st1_def)
      from Cons.IH [OF dist mem keep(2)] show ?thesis unfolding step keep(1) .
    qed
  qed
qed


lemma reconcileAgent_outcome:
  assumes "metaFile dir = Some meta"
  shows "\<exists>info dir'. fst (reconcileAgent env agentsDir agentId dir np) = Some info \<and>
      fst (snd (reconcileAgent env agentsDir agentId dir np)) = dir' \<and>
      id_a info = agentId \<and> metaFile dir' = Some meta \<and>
      (pidFile dir = None \<longrightarrow> isStopped info \<and> pidFile dir' = None) \<and>
      (\<forall>s. pidFile dir = Some s \<longrightarrow> (\<forall>p. parseInt10 s = Some p \<longrightarrow> \<not> alive env p) \<longrightarrow>
           isStopped info \<and> pidFile dir' = None) \<and>
      (\<forall>s p. pidFile dir = Some s \<longrightarrow> parseInt10 s = Some p \<longrightarrow> alive env p \<longrightarrow>
           health env (port_meta meta) \<noteq> HealthOk \<longrightarrow>
           isStopped info \<and> pidFile dir' = Some s) \<and>
      (\<forall>s p. pidFile dir = Some s \<longrightarrow> parseInt10 s = Some p \<longrightarrow> alive env p \<longrightarrow>
           health env (port_meta meta) = HealthOk \<longrightarrow>
           status_a info = AgentRunning \<and> port info = port_meta meta \<and> pid info = Some p \<and>
           pidFile dir' = Some s)"
  using assms
  by (auto simp: reconcileAgent_def checkServer_def isStopped_def Let_def
           split: option.splits HealthProbe.splits)

text \<open>
  C4 (amended). After the reconciliation loop of \<open>init()\<close>, every listed agent
  directory that has a \<open>meta.json\<close> has a record, and its metadata file is untouched.
  Without a readable \<open>server.pid\<close>, or when signal 0 cannot be delivered to the
  recorded pid, the record is stopped with port and pid cleared and \<open>server.pid\<close> is
  erased. When the process is alive but \<open>/health\<close> at the stored port does not answer
  with success, the record is stopped with port and pid cleared and \<open>server.pid\<close> is
  left in place. When both checks pass the record is running with the stored port
  and the recorded pid, and \<open>server.pid\<close> stays.
\<close>

theorem reconciliation_outcome:
  assumes "distinct names" and "name \<in> set names"
    and "dirs st name = Some dir" and "metaFile dir = Some meta"
  shows "\<exists>info dir'.
      agents (loadExistingAgents env agentsDir names st) name = Some info \<and>
      dirs (loadExistingAgents env agentsDir names st) name = Some dir' \<and>
      id_a info = name \<and> metaFile dir' = Some meta \<and>
      (pidFile dir = None \<longrightarrow> isStopped info \<and> pidFile dir' = None) \<and>
      (\<forall>s. pidFile dir = Some s \<longrightarrow> (\<forall>p. parseInt10 s = Some p \<longrightarrow> \<not> alive env p) \<longrightarrow>
           isStopped info \<and> pidFile dir' = None) \<and>
      (\<forall>s p. pidFile dir = Some s \<longrightarrow> parseInt10 s = Some p \<longrightarrow> alive env p \<longrightarrow>
           health env (port_meta meta) \<noteq> HealthOk \<longrightarrow>
           isStopped info \<and> pidFile dir' = Some s) \<and>
      (\<forall>s p. pidFile dir = Some s \<longrightarrow> parseInt10 s = Some p \<longrightarrow> alive env p \<longrightarrow>
           health env (port_meta meta) = HealthOk \<longrightarrow>
           status_a info = AgentRunning \<and> port info = port_meta meta \<and> pid info = Some p \<and>
           pidFile dir' = Some s)"
proof -
  from load_at [OF assms(1-3)] obtain np where
    a: "agents (loadExistingAgents env agentsDir names st) name =
           (case fst (reconcileAgent env agentsDir name dir np) of
              Some i \<Rightarrow> Some i | None \<Rightarrow> agents st name)"
    and d: "dirs (loadExistingAgents env agentsDir names st) name =
           Some (fst (snd (reconcileAgent env agentsDir name dir np)))"
    by blast
  let ?P = "\<lambda>info dir'. fst (reconcileAgent env agentsDir name dir np) = Some info \<and>
      fst (snd (reconcileAgent env agentsDir name dir np)) = dir' \<and>
      id_a info = name \<and> metaFile dir' = Some meta \<and>
      (pidFile dir = None \<longrightarrow> isStopped info \<and> pidFile dir' = None) \<and>
      (\<forall>s. pidFile dir = Some s \<longrightarrow> (\<forall>p. parseInt10 s = Some p \<longrightarrow> \<not> alive env p) \<longrightarrow>
           isStopped info \<and> pidFile dir' = None) \<and>
      (\<forall>s p. pidFile dir = Some s \<longrightarrow> parseInt10 s = Some p \<longrightarrow> alive env p \<longrightarrow>
           health env (port_meta meta) \<noteq> HealthOk \<longrightarrow>
           isStopped info \<and> pidFile dir' = Some s) \<and>
      (\<forall>s p. pidFile dir = Some s \<longrightarrow> parseInt10 s = Some p \<longrightarrow> alive env p \<longrightarrow>
           health env (port_meta meta) = HealthOk \<longrightarrow>
           status_a info = AgentRunning \<and> port info = port_meta meta \<and> pid info = Some p \<and>
           pidFile dir' = Some s)"
  have "\<exists>info dir'. ?P info dir'"
    by (rule reconcileAgent_outcome [OF assms(4)])
  then obtain info where "\<exists>dir'. ?P info dir'" ..
  then obtain dir' where all: "?P info dir'" ..
  from all have i: "fst (reconcileAgent env agentsDir name dir np) = Some info" by (rule conjunct1)
  from all have d': "fst (snd (reconcileAgent env agentsDir name dir np)) = dir'"
    by (rule conjunct1 [OF conjunct2])
  from all have rest: "id_a info = name \<and> metaFile dir' = Some meta \<and>
      (pidFile dir = None \<longrightarrow> isStopped info \<and> pidFile dir' = None) \<and>
      (\<forall>s. pidFile dir = Some s \<longrightarrow> (\<forall>p. parseInt10 s = Some p \<longrightarrow> \<not> alive env p) \<longrightarrow>
           isStopped info \<and> pidFile dir' = None) \<and>
      (\<forall>s p. pidFile dir = Some s \<longrightarrow> parseInt10 s = Some p \<longrightarrow> alive env p \<longrightarrow>
           health env (port_meta meta) \<noteq> HealthOk \<longrightarrow>
           isStopped info \<and> pidFile dir' = Some s) \<and>
      (\<forall>s p. pidFile dir = Some s \<longrightarrow> parseInt10 s = Some p \<longrightarrow> alive env p \<longrightarrow>
           health env (port_meta meta) = HealthOk \<longrightarrow>
           status_a info = AgentRunning \<and> port info = port_meta meta \<and> pid info = Some p \<and>
           pidFile dir' = Some s)"
    by (rule conjunct2 [OF conjunct2])
  have "agents (loadExistingAgents env agentsDir names st) name = Some info" using a i by simp
  moreover have "dirs (loadExistingAgents env agentsDir names st) name = Some dir'" using d d' by simp
  ultimately have "agents (loadExistingAgents env agentsDir names st) name = Some info \<and>
      dirs (loadExistingAgents env agentsDir names st) name = Some dir' \<and>
      id_a info = name \<and> metaFile dir' = Some meta \<and>
      (pidFile dir = None \<longrightarrow> isStopped info \<and> pidFile dir' = None) \<and>
      (\<forall>s. pidFile dir = Some s \<longrightarrow> (\<forall>p. parseInt10 s = Some p \<longrightarrow> \<not> alive env p) \<longrightarrow>
           isStopped info \<and> pidFile dir' = None) \<and>
      (\<forall>s p. pidFile dir = Some s \<longrightarrow> parseInt10 s = Some p \<longrightarrow> alive env p \<longrightarrow>
           health env (port_meta meta) \<noteq> HealthOk \<longrightarrow>
           isStopped info \<and> pidFile dir' = Some s) \<and>
      (\<forall>s p. pidFile dir = Some s \<longrightarrow> parseInt10 s = Some p \<longrightarrow> alive env p \<longrightarrow>
           health env (port_meta meta) = HealthOk \<longrightarrow>
           status_a info = AgentRunning \<and> port info = port_meta meta \<and> pid info = Some p \<and>
           pidFile dir' = Some s)"
    using rest by (intro conjI) simp_all
  then show ?thesis by (intro exI)
qed

theorem reconciliation_outcome_witness:
  "(let env = \<lparr>alive = (\<lambda>p. p = 4242), health = (\<lambda>q. if q = Some 9000 then HealthOk else HealthUnreachable)\<rparr>;
        st = loadExistingAgents env ''data/agents'' [''idle'', ''gone'', ''worker'']
               \<lparr>agents = Map.empty,
                dirs = [''idle'' \<mapsto> \<lparr>metaFile = Some \<lparr>createdAt_meta = 5, port_meta = Some 9002\<rparr>, pidFile = None\<rparr>,
                        ''gone'' \<mapsto> \<lparr>metaFile = Some \<lparr>createdAt_meta = 6, port_meta = Some 9001\<rparr>, pidFile = Some ''77''\<rparr>,
                        ''worker'' \<mapsto> \<lparr>metaFile = Some \<lparr>createdAt_meta = 7, port_meta = Some 9000\<rparr>, pidFile = Some ''4242''\<rparr>],
                nextPort = 9000\<rparr>
    in map_option status_a (agents st ''worker'') = Some AgentRunning \<and>
       map_option port (agents st ''worker'') = Some (Some 9000) \<and>
       map_option pid (agents st ''worker'') = Some (Some 4242) \<and>
       map_option pidFile (dirs st ''worker'') = Some (Some ''4242'') \<and>
       map_option isStopped (agents st ''gone'') = Some True \<and>
       map_option pidFile (dirs st ''gone'') = Some None \<and>
       map_option isStopped (agents st ''idle'') = Some True \<and>
       nextPort st = 9001)"
proof -
  define env where "env = \<lparr>alive = (\<lambda>p::int. p = 4242),
     health = (\<lambda>q. if q = Some (9000::int) then HealthOk else HealthUnreachable)\<rparr>"
  define st0 where "st0 = \<lparr>agents = Map.empty,
                dirs = [''idle'' \<mapsto> \<lparr>metaFile = Some \<lparr>createdAt_meta = 5, port_meta = Some 9002\<rparr>, pidFile = None\<rparr>,
                        ''gone'' \<mapsto> \<lparr>metaFile = Some \<lparr>createdAt_meta = 6, port_meta = Some 9001\<rparr>, pidFile = Some ''77''\<rparr>,
                        ''worker'' \<mapsto> \<lparr>metaFile = Some \<lparr>createdAt_meta = 7, port_meta = Some 9000\<rparr>, pidFile = Some ''4242''\<rparr>],
                nextPort = 9000\<rparr>"
  define st where "st = loadExistingAgents env ''data/agents'' [''idle'', ''gone'', ''worker''] st0"
  have dist: "distinct [''idle'', ''gone'', ''worker'']" by simp
  have pw: "parseInt10 ''4242'' = Some 4242" by code_simp
  have pg: "parseInt10 ''77'' = Some 77" by code_simp
  have w: "dirs st0 ''worker'' = Some \<lparr>metaFile = Some \<lparr>createdAt_meta = 7, port_meta = Some 9000\<rparr>, pidFile = Some ''4242''\<rparr>"
    by (simp add: st0_def)
  have g: "dirs st0 ''gone'' = Some \<lparr>metaFile = Some \<lparr>createdAt_meta = 6, port_meta = Some 9001\<rparr>, pidFile = Some ''77''\<rparr>"
    by (simp add: st0_def)
  have i: "dirs st0 ''idle'' = Some \<lparr>metaFile = Some \<lparr>createdAt_meta = 5, port_meta = Some 9002\<rparr>, pidFile = None\<rparr>"
    by (simp add: st0_def)
  from reconciliation_outcome [OF dist _ w, of "\<lparr>createdAt_meta = 7, port_meta = Some 9000\<rparr>" env "''data/agents''"]
  have rw: "map_option status_a (agents st ''worker'') = Some AgentRunning \<and>
       map_option port (agents st ''worker'') = Some (Some 9000) \<and>
       map_option pid (agents st ''worker'') = Some (Some 4242) \<and>
       map_option pidFile (dirs st ''worker'') = Some (Some ''4242'')"
    using pw by (auto simp: st_def env_def)
  from reconciliation_outcome [OF dist _ g, of "\<lparr>createdAt_meta = 6, port_meta = Some 9001\<rparr>" env "''data/agents''"]
  have rg: "map_option isStopped (agents st ''gone'') = Some True \<and>
       map_option pidFile (dirs st ''gone'') = Some None"
    using pg by (auto simp: st_def env_def)
  from reconciliation_outcome [OF dist _ i, of "\<lparr>createdAt_meta = 5, port_meta = Some 9002\<rparr>" env "''data/agents''"]
  have ri: "map_option isStopped (agents st ''idle'') = Some True"
    by (auto simp: st_def env_def)
  have np: "nextPort st = 9001"
    by (simp add: st_def st0_def env_def reconcileAgent_def checkServer_def pw pg Let_def)
  from rw rg ri np show ?thesis
    unfolding Let_def st_def st0_def env_def by (intro conjI) simp_all
qed

text \<open>
  The claim as written fails where the process is alive and the health probe is
  refused: the record is stopped and cleared, but \<open>server.pid\<close> is still there.
\<close>

theorem reconciliation_outcome_counterexample:
  "agents (loadExistingAgents \<lparr>alive = (\<lambda>p. True), health = (\<lambda>q. HealthUnreachable)\<rparr>
       ''data/agents'' [''worker'']
       \<lparr>agents = Map.empty,
          dirs = [''worker'' \<mapsto> \<lparr>metaFile = Some \<lparr>createdAt_meta = 7, port_meta = Some 9000\<rparr>,
                                  pidFile = Some ''4242''\<rparr>],
          nextPort = 9000\<rparr>) ''worker''
     = Some \<lparr>id_a = ''worker'', status_a = AgentStopped,
              workspace = ''data/agents/worker/workspace'',
              sessionDir = ''data/agents/worker/sessions'',
              memoryDir = ''data/agents/worker/memory'',
              createdAt_a = 7, port = None, pid = None\<rparr> \<and>
   dirs (loadExistingAgents \<lparr>alive = (\<lambda>p. True), health = (\<lambda>q. HealthUnreachable)\<rparr>
       ''data/agents'' [''worker'']
       \<lparr>agents = Map.empty,
          dirs = [''worker'' \<mapsto> \<lparr>metaFile = Some \<lparr>createdAt_meta = 7, port_meta = Some 9000\<rparr>,
                                  pidFile = Some ''4242''\<rparr>],
          nextPort = 9000\<rparr>) ''worker''
     = Some \<lparr>metaFile = Some \<lparr>createdAt_meta = 7, port_meta = Some 9000\<rparr>,
              pidFile = Some ''4242''\<rparr>"
proof -
  have pw: "parseInt10 ''4242'' = Some 4242" by code_simp
  show ?thesis
    by (simp add: reconcileAgent_def checkServer_def pw Let_def)
qed

section \<open>One-shot cron jobs\<close>

lemma spliceJob_removes:
  "distinct (map id_j js) \<Longrightarrow> jid \<notin> id_j ` set (spliceJob jid js)"
  by (induction js) auto

lemma updateJob_ids: "id_j (f j0) = jid \<Longrightarrow> (\<And>j. id_j (f j) = id_j (f j0)) \<Longrightarrow> map id_j (updateJob jid f js) = map id_j js"
  by (induction js) auto

text \<open>
  The path the callback leaves by returning: a job marked \<open>deleteAfterRun\<close> is gone
  from the list and from the store afterwards, and no timer is left for it.
\<close>

lemma run_returned_deletes:
  assumes "findJob jid (jobs svc) = Some job" and "deleteAfterRun job = Some True"
    and "callback env = Returned res" and "distinct (map id_j (jobs svc))"
  shows "jid \<notin> id_j ` set (listJobs True (snd (run env jid Force svc))) \<and>
         timers (snd (run env jid Force svc)) jid = None \<and>
         stored (snd (run env jid Force svc)) = Some (jobs (snd (run env jid Force svc))) \<and>
         fst (run env jid Force svc) = Inr res"
proof -
  have idj: "id_j job = jid"
    using assms(1) by (auto simp: findJob_def find_Some_iff)
  define job' where "job' = job\<lparr>state_j := (state_j job)
                            \<lparr>lastRunAtMs := Some (millis (startMs env)),
                             lastDurationMs := Some (jsSub (millis (endMs env)) (millis (startMs env))),
                             lastStatus := Some StatusOk,
                             lastError := None,
                             runningAtMs := None,
                             nextRunAtMs := Some (computeNextRun (cronNext_env env) (nextNow env) (nextLater env) (schedule job))\<rparr>\<rparr>"
  have "map id_j (updateJob jid (\<lambda>_. job') (jobs svc)) = map id_j (jobs svc)"
    by (rule updateJob_ids) (simp_all add: job'_def idj)
  then have "distinct (map id_j (updateJob jid (\<lambda>_. job') (jobs svc)))"
    using assms(4) by simp
  then have "jid \<notin> id_j ` set (spliceJob jid (updateJob jid (\<lambda>_. job') (jobs svc)))"
    by (rule spliceJob_removes)
  then show ?thesis
    using assms(1-3) idj
    by (simp add: run_def executeJob_def Let_def listJobs_def save_def cancelJobTimer_def job'_def)
qed

text \<open>
  C1. The path the callback leaves by throwing has no such step. A one-shot job
  whose callback throws is still in \<open>list({includeDisabled: true})\<close> after the run,
  forced or fired by its timer, it is still in the store, and since the service
  is running and the job enabled a new timer is armed for it.
\<close>

theorem deleteAfterRun_kept_on_error:
  "(let job = \<lparr>id_j = ''j1'', name_j = ''once'', description = None, enabled = True,
               deleteAfterRun = Some True, createdAtMs = Finite 0, updatedAtMs = Finite 0,
               schedule = At (Finite 500), payload = SystemEvent ''ping'',
               state_j = \<lparr>nextRunAtMs = Some (Finite 500), runningAtMs = None, lastRunAtMs = None,
                          lastStatus = None, lastError = None, lastDurationMs = None\<rparr>\<rparr>;
        svc = \<lparr>jobs = [job], timers = [''j1'' \<mapsto> Finite 0], running = True,
               stored = Some [job], events = []\<rparr>;
        env = \<lparr>dueNow = 1000, startMs = 1000, endMs = 1005, nextNow = 1005, nextLater = 1005,
               armNow = 1005, cronNext_env = (\<lambda>_ _. None), callback = Threw ''boom''\<rparr>
    in fst (run env ''j1'' Force svc) = Inl ''boom'' \<and>
       map id_j (listJobs True (snd (run env ''j1'' Force svc))) = [''j1''] \<and>
       map_option (map id_j) (stored (snd (run env ''j1'' Force svc))) = Some [''j1''] \<and>
       timers (snd (run env ''j1'' Force svc)) ''j1'' = Some (Finite 1000) \<and>
       map id_j (listJobs True (snd (timerFires env ''j1'' svc))) = [''j1''] \<and>
       timers (snd (timerFires env ''j1'' svc)) ''j1'' = Some (Finite 1000) \<and>
       map id_j (listJobs True (snd (run (env\<lparr>callback := Returned None\<rparr>) ''j1'' Force svc))) = [])"
  by (simp add: run_def timerFires_def executeJob_def scheduleJob_def cancelJobTimer_def save_def
      listJobs_def findJob_def delayOf_def jsnum_eval round64_eval)


section \<open>Single-flight creation of sessions\<close>

lemma map_of_mapSet: "map_of (mapSet k v ps) k' = (if k' = k then Some v else map_of ps k')"
  by (induction ps) auto

lemma map_of_mapDelete: "map_of (mapDelete k ps) k' = (if k' = k then None else map_of ps k')"
  by (induction ps) (auto simp: mapDelete_def)

lemma creatorsOf_append:
  "creatorsOf k (sm\<lparr>tasks := tasks sm @ [t]\<rparr>) =
     creatorsOf k sm @ (case t of Creator k' c \<Rightarrow> if k' = k then [t] else [] | _ \<Rightarrow> [])"
  by (cases t) (simp_all add: creatorsOf_def isCreatorOf_def)

lemma filter_remove_nth_other:
  "i < length xs \<Longrightarrow> \<not> P (xs ! i) \<Longrightarrow> filter P (take i xs @ drop (Suc i) xs) = filter P xs"
proof -
  assume a: "i < length xs" "\<not> P (xs ! i)"
  have "xs = take i xs @ xs ! i # drop (Suc i) xs" using a(1) by (rule id_take_nth_drop)
  then have "filter P xs = filter P (take i xs @ xs ! i # drop (Suc i) xs)" by simp
  then show ?thesis using a(2) by simp
qed

lemma filter_remove_nth_single:
  "i < length xs \<Longrightarrow> P (xs ! i) \<Longrightarrow> filter P xs = [x] \<Longrightarrow> filter P (take i xs @ drop (Suc i) xs) = []"
proof -
  assume a: "i < length xs" "P (xs ! i)" "filter P xs = [x]"
  have "xs = take i xs @ xs ! i # drop (Suc i) xs" using a(1) by (rule id_take_nth_drop)
  then have "filter P xs = filter P (take i xs) @ xs ! i # filter P (drop (Suc i) xs)"
    using a(2) by (metis filter.simps(2) filter_append)
  with a(3) have "filter P (take i xs) @ xs ! i # filter P (drop (Suc i) xs) = [x]" by simp
  then have "filter P (take i xs) = [] \<and> filter P (drop (Suc i) xs) = []"
    by (simp add: append_eq_Cons_conv)
  then show ?thesis by simp
qed

lemma creator_is_pending:
  assumes "invSM sm" and "Creator k c \<in> set (tasks sm)"
  shows "pendingCreations sm k = Some c"
proof -
  have mem: "Creator k c \<in> set (creatorsOf k sm)" using assms(2) by (simp add: creatorsOf_def isCreatorOf_def)
  then have "creatorsOf k sm \<noteq> []" by auto
  then obtain c' where p: "pendingCreations sm k = Some c'"
    using assms(1) by (cases "pendingCreations sm k") (auto simp: invSM_def)
  then have "creatorsOf k sm = [Creator k c']" using assms(1) by (simp add: invSM_def)
  with mem p show ?thesis by simp
qed

lemma invSM_new: "invSM (newSessionManager maxS hc)"
  by (simp add: invSM_def newSessionManager_def creatorsOf_def isCreatorOf_def)

lemma creatorsOf_closeSession: "creatorsOf k' (closeSession k sm) = creatorsOf k' sm"
  by (simp add: closeSession_def creatorsOf_def isCreatorOf_def split: option.splits)

lemma closeSession_frame:
  "sessions (closeSession k sm) = sessions sm"
  "pendingCreations (closeSession k sm) = pendingCreations sm"
  "creations (closeSession k sm) = creations sm"
  "returned (closeSession k sm) = returned sm"
  "maxSessions (closeSession k sm) = maxSessions sm"
  by (simp_all add: closeSession_def split: option.splits)

lemma evictOldest_frame:
  "sessions (evictOldest sm) = sessions sm"
  "pendingCreations (evictOldest sm) = pendingCreations sm"
  "creations (evictOldest sm) = creations sm"
  "returned (evictOldest sm) = returned sm"
  "creatorsOf k' (evictOldest sm) = creatorsOf k' sm"
  by (simp_all add: evictOldest_def closeSession_frame creatorsOf_closeSession split: option.splits prod.splits)

lemma invSM_closeSession: "invSM sm \<Longrightarrow> invSM (closeSession k sm)"
  by (simp add: invSM_def closeSession_frame creatorsOf_closeSession)

lemma invSM_evictOldest: "invSM sm \<Longrightarrow> invSM (evictOldest sm)"
  by (simp add: invSM_def evictOldest_frame)

lemma invSM_getOrCreate:
  assumes inv: "invSM sm"
  shows "invSM (getOrCreateByKey k now sm)"
proof (cases "map_of (sessions sm) k")
  case (Some existing)
  then have eq: "getOrCreateByKey k now sm =
      sm\<lparr>sessions := mapSet k (existing\<lparr>lastAccessedAt := now\<rparr>) (sessions sm),
         returned := returned sm @ [(k, session existing)]\<rparr>"
    by (simp add: getOrCreateByKey_def)
  have nopend: "pendingCreations sm k = None"
    using inv Some by (cases "pendingCreations sm k") (auto simp: invSM_def)
  show ?thesis unfolding eq using inv nopend
    by (auto simp: invSM_def map_of_mapSet creatorsOf_def isCreatorOf_def)
next
  case None
  show ?thesis
  proof (cases "pendingCreations sm k")
    case (Some c)
    then have eq: "getOrCreateByKey k now sm = sm\<lparr>tasks := tasks sm @ [Waiter k c]\<rparr>"
      using None by (simp add: getOrCreateByKey_def)
    show ?thesis unfolding eq using inv
      by (simp add: invSM_def creatorsOf_def isCreatorOf_def)
  next
    case pn: None
    define sm1 where "sm1 = (if length (sessions sm) \<ge> maxSessions sm then evictOldest sm else sm)"
    have inv1: "invSM sm1" using inv by (simp add: sm1_def invSM_evictOldest)
    have fr: "sessions sm1 = sessions sm" "pendingCreations sm1 = pendingCreations sm"
      "creations sm1 = creations sm"
      by (simp_all add: sm1_def evictOldest_frame)
    have eq: "getOrCreateByKey k now sm =
        sm1\<lparr>creations := creations sm1 @ [InFlight],
            pendingCreations := (pendingCreations sm1)(k \<mapsto> length (creations sm1)),
            tasks := tasks sm1 @ [Creator k (length (creations sm1))]\<rparr>"
      using None pn by (simp add: getOrCreateByKey_def sm1_def Let_def)
    have c0: "creatorsOf k sm1 = []" using inv1 pn fr by (simp add: invSM_def)
    have c1: "\<And>k'. creatorsOf k'
        (sm1\<lparr>creations := creations sm1 @ [InFlight],
            pendingCreations := (pendingCreations sm1)(k \<mapsto> length (creations sm1)),
            tasks := tasks sm1 @ [Creator k (length (creations sm1))]\<rparr>)
        = creatorsOf k' sm1 @ (if k' = k then [Creator k (length (creations sm1))] else [])"
      by (simp add: creatorsOf_def isCreatorOf_def)
    show ?thesis unfolding eq invSM_def c1
      using inv1 c0 None fr
      by (auto simp: invSM_def nth_append less_Suc_eq)
  qed
qed

lemma invSM_settle:
  assumes inv: "invSM sm" and c: "c < length (creations sm)" and "creations sm ! c = InFlight"
  shows "invSM (sm\<lparr>creations := (creations sm)[c := Resolved \<lparr>session = c, createdAt_s = t1, lastAccessedAt = t2\<rparr>]\<rparr>)"
    and "invSM (sm\<lparr>creations := (creations sm)[c := Rejected]\<rparr>)"
  using assms by (auto simp: invSM_def creatorsOf_def isCreatorOf_def nth_list_update)

lemma invSM_cong:
  "sessions a = sessions b \<Longrightarrow> pendingCreations a = pendingCreations b \<Longrightarrow>
   creations a = creations b \<Longrightarrow> tasks a = tasks b \<Longrightarrow> invSM a = invSM b"
  by (simp add: invSM_def creatorsOf_def isCreatorOf_def)

lemma invSM_shrink:
  assumes "invSM a" and "pendingCreations b = pendingCreations a" and "creations b = creations a"
    and "\<And>k. creatorsOf k b = creatorsOf k a"
    and "\<And>k. map_of (sessions a) k = None \<Longrightarrow> map_of (sessions b) k = None"
  shows "invSM b"
  using assms unfolding invSM_def by simp

lemma creators_after_removal:
  assumes inv: "invSM sm" and i: "i < length (tasks sm)"
  defines "sm0 \<equiv> sm\<lparr>tasks := take i (tasks sm) @ drop (Suc i) (tasks sm)\<rparr>"
  shows "(\<And>k c. tasks sm ! i = Creator k c \<Longrightarrow> creatorsOf k sm0 = [])"
    and "(\<And>k c k'. tasks sm ! i = Creator k c \<Longrightarrow> k' \<noteq> k \<Longrightarrow> creatorsOf k' sm0 = creatorsOf k' sm)"
    and "(\<And>k'. (\<forall>k c. tasks sm ! i \<noteq> Creator k c) \<Longrightarrow> creatorsOf k' sm0 = creatorsOf k' sm)"
proof -
  fix k c assume t: "tasks sm ! i = Creator k c"
  then have "Creator k c \<in> set (tasks sm)" using i by (metis nth_mem)
  with inv have pend: "pendingCreations sm k = Some c" by (rule creator_is_pending)
  then have single: "filter (isCreatorOf k) (tasks sm) = [Creator k c]"
    using inv by (simp add: invSM_def creatorsOf_def)
  have "isCreatorOf k (tasks sm ! i)" using t by (simp add: isCreatorOf_def)
  from filter_remove_nth_single [where P = "isCreatorOf k" and xs = "tasks sm", OF i this single]
  show "creatorsOf k sm0 = []" by (simp add: creatorsOf_def sm0_def)
next
  fix k c k' assume t: "tasks sm ! i = Creator k c" and ne: "k' \<noteq> k"
  have "\<not> isCreatorOf k' (tasks sm ! i)" using t ne by (simp add: isCreatorOf_def)
  from filter_remove_nth_other [where P = "isCreatorOf k'" and xs = "tasks sm", OF i this]
  show "creatorsOf k' sm0 = creatorsOf k' sm" by (simp add: creatorsOf_def sm0_def)
next
  fix k' assume t: "\<forall>k c. tasks sm ! i \<noteq> Creator k c"
  have "\<not> isCreatorOf k' (tasks sm ! i)"
    using t by (cases "tasks sm ! i") (simp_all add: isCreatorOf_def)
  from filter_remove_nth_other [where P = "isCreatorOf k'" and xs = "tasks sm", OF i this]
  show "creatorsOf k' sm0 = creatorsOf k' sm" by (simp add: creatorsOf_def sm0_def)
qed

lemma invSM_resume:
  assumes inv: "invSM sm" and i: "i < length (tasks sm)"
    and r: "resume (tasks sm ! i) ok (sm\<lparr>tasks := take i (tasks sm) @ drop (Suc i) (tasks sm)\<rparr>) = Some sm'"
  shows "invSM sm'"
proof -
  define sm0 where "sm0 = sm\<lparr>tasks := take i (tasks sm) @ drop (Suc i) (tasks sm)\<rparr>"
  note rem = creators_after_removal [OF inv i, folded sm0_def]
  have fr0: "sessions sm0 = sessions sm" "pendingCreations sm0 = pendingCreations sm"
    "creations sm0 = creations sm"
    by (simp_all add: sm0_def)
  from r have r0: "resume (tasks sm ! i) ok sm0 = Some sm'" by (simp add: sm0_def)
  show ?thesis
  proof (cases "tasks sm ! i")
    case (Creator k c)
    then have "Creator k c \<in> set (tasks sm)" using i by (metis nth_mem)
    with inv have pend: "pendingCreations sm k = Some c" by (rule creator_is_pending)
    have gone: "creatorsOf k sm0 = []" using rem(1) Creator by simp
    have other: "\<And>k'. k' \<noteq> k \<Longrightarrow> creatorsOf k' sm0 = creatorsOf k' sm" using rem(2) Creator by simp
    from r0 Creator have r': "resume (Creator k c) ok sm0 = Some sm'" by simp
    have p': "pendingCreations sm' = (pendingCreations sm)(k := None)"
      using r' by (auto simp: resume_def fr0 split: Creation.splits)
    have c': "creations sm' = creations sm"
      using r' by (auto simp: resume_def fr0 split: Creation.splits)
    have t': "\<And>k'. creatorsOf k' sm' = creatorsOf k' sm0"
      using r' by (auto simp: resume_def creatorsOf_def split: Creation.splits)
    have s': "\<And>k'. k' \<noteq> k \<Longrightarrow> map_of (sessions sm') k' = map_of (sessions sm) k'"
      using r' by (auto simp: resume_def fr0 map_of_mapSet split: Creation.splits)
    have g1: "map_of (sessions sm') k' = None \<and> c' < length (creations sm') \<and>
          creatorsOf k' sm' = [Creator k' c']" if a: "pendingCreations sm' k' = Some c'" for k' c'
    proof -
      from a have ne: "k' \<noteq> k" and old: "pendingCreations sm k' = Some c'"
        by (auto simp: p' split: if_splits)
      from inv old have "map_of (sessions sm) k' = None \<and> c' < length (creations sm) \<and>
          creatorsOf k' sm = [Creator k' c']" by (simp add: invSM_def)
      then show ?thesis using ne by (simp add: s' c' t' other)
    qed
    have g2: "creatorsOf k' sm' = []" if a: "pendingCreations sm' k' = None" for k'
    proof (cases "k' = k")
      case True
      then show ?thesis by (simp add: t' gone)
    next
      case False
      with a have "pendingCreations sm k' = None" by (simp add: p')
      with inv have "creatorsOf k' sm = []" by (simp add: invSM_def)
      then show ?thesis using False by (simp add: t' other)
    qed
    have g3: "session m = c'" if "c' < length (creations sm')" "creations sm' ! c' = Resolved m" for c' m
      using that inv by (simp add: c' invSM_def)
    show ?thesis unfolding invSM_def using g1 g2 g3 by blast
  next
    case (Waiter k c)
    have same: "\<And>k'. creatorsOf k' sm0 = creatorsOf k' sm" using rem(3) Waiter by simp
    have inv0: "invSM sm0" using inv same by (simp add: invSM_def fr0)
    from r0 Waiter have w: "sessions sm' = sessions sm0" "pendingCreations sm' = pendingCreations sm0"
        "creations sm' = creations sm0" "tasks sm' = tasks sm0"
      by (auto simp: resume_def split: Creation.splits)
    have "invSM sm' = invSM sm0" by (rule invSM_cong [OF w])
    then show ?thesis using inv0 by simp
  next
    case (ClosingChain k)
    have same: "\<And>k'. creatorsOf k' sm0 = creatorsOf k' sm" using rem(3) ClosingChain by simp
    have inv0: "invSM sm0" using inv same by (simp add: invSM_def fr0)
    have cases: "sm' = sm0\<lparr>tasks := tasks sm0 @ [ClosingSession k]\<rparr> \<or>
        sm' = sm0\<lparr>sessions := mapDelete k (sessions sm0)\<rparr>"
      using r0 ClosingChain by (simp add: resume_def split: if_splits)
    show ?thesis
    proof (rule invSM_shrink [OF inv0])
      show "pendingCreations sm' = pendingCreations sm0" using cases by auto
      show "creations sm' = creations sm0" using cases by auto
      show "creatorsOf k' sm' = creatorsOf k' sm0" for k'
        using cases by (auto simp: creatorsOf_def isCreatorOf_def)
      show "map_of (sessions sm0) k' = None \<Longrightarrow> map_of (sessions sm') k' = None" for k'
        using cases by (auto simp: map_of_mapDelete)
    qed
  next
    case (ClosingSession k)
    have same: "\<And>k'. creatorsOf k' sm0 = creatorsOf k' sm" using rem(3) ClosingSession by simp
    have inv0: "invSM sm0" using inv same by (simp add: invSM_def fr0)
    have cases: "sm' = sm0 \<or> sm' = sm0\<lparr>sessions := mapDelete k (sessions sm0)\<rparr>"
      using r0 ClosingSession by (simp add: resume_def split: if_splits)
    show ?thesis
    proof (rule invSM_shrink [OF inv0])
      show "pendingCreations sm' = pendingCreations sm0" using cases by auto
      show "creations sm' = creations sm0" using cases by auto
      show "creatorsOf k' sm' = creatorsOf k' sm0" for k' using cases by (auto simp: creatorsOf_def)
      show "map_of (sessions sm0) k' = None \<Longrightarrow> map_of (sessions sm') k' = None" for k'
        using cases by (auto simp: map_of_mapDelete)
    qed
  qed
qed

lemma invSM_step: "invSM sm \<Longrightarrow> step ev sm = Some sm' \<Longrightarrow> invSM sm'"
proof (cases ev)
  case (CallGetOrCreate k now)
  assume "invSM sm" "step ev sm = Some sm'"
  then show ?thesis using CallGetOrCreate invSM_getOrCreate by (auto simp: step_def)
next
  case (CallClose k)
  assume "invSM sm" "step ev sm = Some sm'"
  then show ?thesis using CallClose invSM_closeSession by (auto simp: step_def)
next
  case (Resolve c t1 t2)
  assume "invSM sm" "step ev sm = Some sm'"
  then show ?thesis using Resolve invSM_settle(1) by (auto simp: step_def split: if_splits)
next
  case (Reject c)
  assume "invSM sm" "step ev sm = Some sm'"
  then show ?thesis using Reject invSM_settle(2) by (auto simp: step_def split: if_splits)
next
  case (Resume i ok)
  assume a: "invSM sm" "step ev sm = Some sm'"
  then have "i < length (tasks sm)" and
    "resume (tasks sm ! i) ok (sm\<lparr>tasks := take i (tasks sm) @ drop (Suc i) (tasks sm)\<rparr>) = Some sm'"
    using Resume by (auto simp: step_def split: if_splits)
  with a(1) show ?thesis by (rule invSM_resume)
qed

lemma invSM_run: "invSM sm \<Longrightarrow> runEvents evs sm = Some sm' \<Longrightarrow> invSM sm'"
proof (induction evs arbitrary: sm)
  case Nil
  then show ?case by simp
next
  case (Cons ev evs)
  then obtain sm1 where s1: "step ev sm = Some sm1" and rest: "runEvents evs sm1 = Some sm'"
    by (auto split: option.splits)
  from Cons.prems(1) s1 have "invSM sm1" by (rule invSM_step)
  from Cons.IH [OF this rest] show ?case .
qed

lemma closeSession_quiet: "closes (closeSession k sm) = 0 \<Longrightarrow> closeSession k sm = sm"
  by (simp add: closeSession_def split: option.splits)

lemma evictOldest_quiet: "closes (evictOldest sm) = 0 \<Longrightarrow> evictOldest sm = sm"
  by (auto simp: evictOldest_def closeSession_quiet split: option.splits prod.splits if_splits)

lemma closes_closeSession: "closes sm \<le> closes (closeSession k sm)"
  by (simp add: closeSession_def split: option.splits)

lemma closes_evictOldest: "closes sm \<le> closes (evictOldest sm)"
  by (simp add: evictOldest_def closes_closeSession split: option.splits prod.splits)

lemma invReturned_getOrCreate:
  assumes inv: "invSM sm" and ir: "invReturned sm"
  shows "invReturned (getOrCreateByKey k now sm)"
proof (cases "map_of (sessions sm) k")
  case (Some existing)
  then have eq: "getOrCreateByKey k now sm =
      sm\<lparr>sessions := mapSet k (existing\<lparr>lastAccessedAt := now\<rparr>) (sessions sm),
         returned := returned sm @ [(k, session existing)]\<rparr>"
    by (simp add: getOrCreateByKey_def)
  show ?thesis unfolding invReturned_def
  proof
    assume "closes (getOrCreateByKey k now sm) = 0"
    then have "closes sm = 0" by (simp add: eq)
    with ir have nc: "noClosing sm" and rh: "returnedHeld sm" and wj: "waitersJoin sm"
      by (simp_all add: invReturned_def)
    have 1: "noClosing (getOrCreateByKey k now sm)" using nc by (simp add: eq noClosing_def)
    have 2: "returnedHeld (getOrCreateByKey k now sm)"
      unfolding eq returnedHeld_def
    proof (intro allI impI)
      fix k' v
      assume "(k', v) \<in> set (returned (sm\<lparr>sessions := mapSet k (existing\<lparr>lastAccessedAt := now\<rparr>) (sessions sm),
         returned := returned sm @ [(k, session existing)]\<rparr>))"
      then consider "(k', v) \<in> set (returned sm)" | "k' = k" "v = session existing" by auto
      then have "(\<exists>m. map_of (mapSet k (existing\<lparr>lastAccessedAt := now\<rparr>) (sessions sm)) k' = Some m \<and> session m = v) \<or>
          (pendingCreations sm k' = Some v \<and> (\<exists>m. creations sm ! v = Resolved m))"
      proof cases
        case 1
        with rh have "(\<exists>m. map_of (sessions sm) k' = Some m \<and> session m = v) \<or>
            (pendingCreations sm k' = Some v \<and> (\<exists>m. creations sm ! v = Resolved m))"
          by (simp add: returnedHeld_def)
        then show ?thesis using Some by (auto simp: map_of_mapSet)
      next
        case 2
        then show ?thesis by (simp add: map_of_mapSet)
      qed
      then show "(\<exists>m. map_of (sessions (sm\<lparr>sessions := mapSet k (existing\<lparr>lastAccessedAt := now\<rparr>) (sessions sm),
         returned := returned sm @ [(k, session existing)]\<rparr>)) k' = Some m \<and> session m = v) \<or>
         (pendingCreations (sm\<lparr>sessions := mapSet k (existing\<lparr>lastAccessedAt := now\<rparr>) (sessions sm),
         returned := returned sm @ [(k, session existing)]\<rparr>) k' = Some v \<and>
          (\<exists>m. creations (sm\<lparr>sessions := mapSet k (existing\<lparr>lastAccessedAt := now\<rparr>) (sessions sm),
         returned := returned sm @ [(k, session existing)]\<rparr>) ! v = Resolved m))"
        by simp
    qed
    have 3: "waitersJoin (getOrCreateByKey k now sm)"
      unfolding eq waitersJoin_def
    proof (intro allI impI)
      fix k' c'
      assume "Waiter k' c' \<in> set (tasks (sm\<lparr>sessions := mapSet k (existing\<lparr>lastAccessedAt := now\<rparr>) (sessions sm),
         returned := returned sm @ [(k, session existing)]\<rparr>))"
      then have "Waiter k' c' \<in> set (tasks sm)" by simp
      with wj have d: "c' < length (creations sm)"
          "pendingCreations sm k' = Some c' \<or> creations sm ! c' = Rejected \<or>
             (\<exists>m. map_of (sessions sm) k' = Some m \<and> session m = c')"
        by (simp_all add: waitersJoin_def)
      then show "c' < length (creations (sm\<lparr>sessions := mapSet k (existing\<lparr>lastAccessedAt := now\<rparr>) (sessions sm),
         returned := returned sm @ [(k, session existing)]\<rparr>)) \<and>
         (pendingCreations (sm\<lparr>sessions := mapSet k (existing\<lparr>lastAccessedAt := now\<rparr>) (sessions sm),
         returned := returned sm @ [(k, session existing)]\<rparr>) k' = Some c' \<or>
          creations (sm\<lparr>sessions := mapSet k (existing\<lparr>lastAccessedAt := now\<rparr>) (sessions sm),
         returned := returned sm @ [(k, session existing)]\<rparr>) ! c' = Rejected \<or>
          (\<exists>m. map_of (sessions (sm\<lparr>sessions := mapSet k (existing\<lparr>lastAccessedAt := now\<rparr>) (sessions sm),
         returned := returned sm @ [(k, session existing)]\<rparr>)) k' = Some m \<and> session m = c'))"
        using Some by (auto simp: map_of_mapSet)
    qed
    from 1 2 3 show "noClosing (getOrCreateByKey k now sm) \<and> returnedHeld (getOrCreateByKey k now sm) \<and>
        waitersJoin (getOrCreateByKey k now sm)" by simp
  qed
next
  case None
  show ?thesis
  proof (cases "pendingCreations sm k")
    case (Some c)
    then have eq: "getOrCreateByKey k now sm = sm\<lparr>tasks := tasks sm @ [Waiter k c]\<rparr>"
      using None by (simp add: getOrCreateByKey_def)
    have clen: "c < length (creations sm)" using inv Some by (simp add: invSM_def)
    show ?thesis unfolding invReturned_def
    proof
      assume "closes (getOrCreateByKey k now sm) = 0"
      then have "closes sm = 0" by (simp add: eq)
      with ir have nc: "noClosing sm" and rh: "returnedHeld sm" and wj: "waitersJoin sm"
        by (simp_all add: invReturned_def)
      have 1: "noClosing (getOrCreateByKey k now sm)" using nc by (simp add: eq noClosing_def)
      have 2: "returnedHeld (getOrCreateByKey k now sm)" using rh by (simp add: eq returnedHeld_def)
      have 3: "waitersJoin (getOrCreateByKey k now sm)"
        using wj Some clen unfolding eq waitersJoin_def by auto
      from 1 2 3 show "noClosing (getOrCreateByKey k now sm) \<and> returnedHeld (getOrCreateByKey k now sm) \<and>
          waitersJoin (getOrCreateByKey k now sm)" by simp
    qed
  next
    case pn: None
    define sm1 where "sm1 = (if length (sessions sm) \<ge> maxSessions sm then evictOldest sm else sm)"
    have eq: "getOrCreateByKey k now sm =
        sm1\<lparr>creations := creations sm1 @ [InFlight],
            pendingCreations := (pendingCreations sm1)(k \<mapsto> length (creations sm1)),
            tasks := tasks sm1 @ [Creator k (length (creations sm1))]\<rparr>"
      using None pn by (simp add: getOrCreateByKey_def sm1_def Let_def)
    show ?thesis unfolding invReturned_def
    proof
      assume "closes (getOrCreateByKey k now sm) = 0"
      then have c1: "closes sm1 = 0" by (simp add: eq)
      then have same: "sm1 = sm" by (auto simp: sm1_def evictOldest_quiet split: if_splits)
      with c1 have "closes sm = 0" by simp
      with ir have nc: "noClosing sm" and rh: "returnedHeld sm" and wj: "waitersJoin sm"
        by (simp_all add: invReturned_def)
      have eq': "getOrCreateByKey k now sm =
        sm\<lparr>creations := creations sm @ [InFlight],
            pendingCreations := (pendingCreations sm)(k \<mapsto> length (creations sm)),
            tasks := tasks sm @ [Creator k (length (creations sm))]\<rparr>"
        using eq same by simp
      have plen: "\<And>k' v. pendingCreations sm k' = Some v \<Longrightarrow> v < length (creations sm)"
        using inv by (simp add: invSM_def)
      have 1: "noClosing (getOrCreateByKey k now sm)" using nc by (simp add: eq' noClosing_def)
      have 2: "returnedHeld (getOrCreateByKey k now sm)"
        unfolding eq' returnedHeld_def
      proof (intro allI impI)
        fix k' v
        assume "(k', v) \<in> set (returned (sm\<lparr>creations := creations sm @ [InFlight],
            pendingCreations := (pendingCreations sm)(k \<mapsto> length (creations sm)),
            tasks := tasks sm @ [Creator k (length (creations sm))]\<rparr>))"
        then have "(k', v) \<in> set (returned sm)" by simp
        with rh have d: "(\<exists>m. map_of (sessions sm) k' = Some m \<and> session m = v) \<or>
            (pendingCreations sm k' = Some v \<and> (\<exists>m. creations sm ! v = Resolved m))"
          by (simp add: returnedHeld_def)
        then have ne: "k' \<noteq> k" using None pn by auto
        from d plen have "(\<exists>m. map_of (sessions sm) k' = Some m \<and> session m = v) \<or>
            (pendingCreations sm k' = Some v \<and> v < length (creations sm) \<and> (\<exists>m. creations sm ! v = Resolved m))"
          by blast
        then show "(\<exists>m. map_of (sessions (sm\<lparr>creations := creations sm @ [InFlight],
            pendingCreations := (pendingCreations sm)(k \<mapsto> length (creations sm)),
            tasks := tasks sm @ [Creator k (length (creations sm))]\<rparr>)) k' = Some m \<and> session m = v) \<or>
          (pendingCreations (sm\<lparr>creations := creations sm @ [InFlight],
            pendingCreations := (pendingCreations sm)(k \<mapsto> length (creations sm)),
            tasks := tasks sm @ [Creator k (length (creations sm))]\<rparr>) k' = Some v \<and>
           (\<exists>m. creations (sm\<lparr>creations := creations sm @ [InFlight],
            pendingCreations := (pendingCreations sm)(k \<mapsto> length (creations sm)),
            tasks := tasks sm @ [Creator k (length (creations sm))]\<rparr>) ! v = Resolved m))"
          using ne by (auto simp: nth_append)
      qed
      have 3: "waitersJoin (getOrCreateByKey k now sm)"
        unfolding eq' waitersJoin_def
      proof (intro allI impI)
        fix k' c'
        assume "Waiter k' c' \<in> set (tasks (sm\<lparr>creations := creations sm @ [InFlight],
            pendingCreations := (pendingCreations sm)(k \<mapsto> length (creations sm)),
            tasks := tasks sm @ [Creator k (length (creations sm))]\<rparr>))"
        then have "Waiter k' c' \<in> set (tasks sm)" by simp
        with wj have d: "c' < length (creations sm)"
          "pendingCreations sm k' = Some c' \<or> creations sm ! c' = Rejected \<or>
             (\<exists>m. map_of (sessions sm) k' = Some m \<and> session m = c')"
          by (simp_all add: waitersJoin_def)
        from d(2) have "k' \<noteq> k \<or> creations sm ! c' = Rejected" using None pn by auto
        with d show "c' < length (creations (sm\<lparr>creations := creations sm @ [InFlight],
            pendingCreations := (pendingCreations sm)(k \<mapsto> length (creations sm)),
            tasks := tasks sm @ [Creator k (length (creations sm))]\<rparr>)) \<and>
          (pendingCreations (sm\<lparr>creations := creations sm @ [InFlight],
            pendingCreations := (pendingCreations sm)(k \<mapsto> length (creations sm)),
            tasks := tasks sm @ [Creator k (length (creations sm))]\<rparr>) k' = Some c' \<or>
           creations (sm\<lparr>creations := creations sm @ [InFlight],
            pendingCreations := (pendingCreations sm)(k \<mapsto> length (creations sm)),
            tasks := tasks sm @ [Creator k (length (creations sm))]\<rparr>) ! c' = Rejected \<or>
           (\<exists>m. map_of (sessions (sm\<lparr>creations := creations sm @ [InFlight],
            pendingCreations := (pendingCreations sm)(k \<mapsto> length (creations sm)),
            tasks := tasks sm @ [Creator k (length (creations sm))]\<rparr>)) k' = Some m \<and> session m = c'))"
          by (auto simp: nth_append)
      qed
      from 1 2 3 show "noClosing (getOrCreateByKey k now sm) \<and> returnedHeld (getOrCreateByKey k now sm) \<and>
          waitersJoin (getOrCreateByKey k now sm)" by simp
    qed
  qed
qed

lemma returnedHeldI:
  assumes "\<And>k v. (k, v) \<in> set (returned sm) \<Longrightarrow>
     (\<exists>m. map_of (sessions sm) k = Some m \<and> session m = v) \<or>
     (pendingCreations sm k = Some v \<and> (\<exists>m. creations sm ! v = Resolved m))"
  shows "returnedHeld sm"
  using assms unfolding returnedHeld_def by blast

lemma returnedHeldD:
  assumes "returnedHeld sm" and "(k, v) \<in> set (returned sm)"
  shows "(\<exists>m. map_of (sessions sm) k = Some m \<and> session m = v) \<or>
     (pendingCreations sm k = Some v \<and> (\<exists>m. creations sm ! v = Resolved m))"
  using assms unfolding returnedHeld_def by blast

lemma waitersJoinI:
  assumes "\<And>k c. Waiter k c \<in> set (tasks sm) \<Longrightarrow>
     c < length (creations sm) \<and>
     (pendingCreations sm k = Some c \<or> creations sm ! c = Rejected \<or>
      (\<exists>m. map_of (sessions sm) k = Some m \<and> session m = c))"
  shows "waitersJoin sm"
  using assms unfolding waitersJoin_def by blast

lemma waitersJoinD:
  assumes "waitersJoin sm" and "Waiter k c \<in> set (tasks sm)"
  shows "c < length (creations sm)"
    and "pendingCreations sm k = Some c \<or> creations sm ! c = Rejected \<or>
      (\<exists>m. map_of (sessions sm) k = Some m \<and> session m = c)"
  using assms unfolding waitersJoin_def by blast+

lemma invReturned_settle:
  assumes ir: "invReturned sm" and c: "c < length (creations sm)" and fl: "creations sm ! c = InFlight"
    and x: "x \<noteq> InFlight"
  shows "invReturned (sm\<lparr>creations := (creations sm)[c := x]\<rparr>)"
  unfolding invReturned_def
proof
  define sm' where "sm' = sm\<lparr>creations := (creations sm)[c := x]\<rparr>"
  assume "closes (sm\<lparr>creations := (creations sm)[c := x]\<rparr>) = 0"
  then have "closes sm = 0" by simp
  with ir have nc: "noClosing sm" and rh: "returnedHeld sm" and wj: "waitersJoin sm"
    by (simp_all add: invReturned_def)
  have f: "sessions sm' = sessions sm" "pendingCreations sm' = pendingCreations sm"
    "tasks sm' = tasks sm" "returned sm' = returned sm" "creations sm' = (creations sm)[c := x]"
    by (simp_all add: sm'_def)
  have keep: "creations sm' ! v = y" if a: "creations sm ! v = y" "y \<noteq> InFlight" for v y
  proof -
    from a fl have "v \<noteq> c" by auto
    then show ?thesis using a(1) by (simp add: f)
  qed
  have 1: "noClosing sm'" using nc by (simp add: noClosing_def f)
  have 2: "returnedHeld sm'"
  proof (rule returnedHeldI)
    fix k v assume "(k, v) \<in> set (returned sm')"
    then have "(k, v) \<in> set (returned sm)" by (simp add: f)
    from returnedHeldD [OF rh this]
    show "(\<exists>m. map_of (sessions sm') k = Some m \<and> session m = v) \<or>
     (pendingCreations sm' k = Some v \<and> (\<exists>m. creations sm' ! v = Resolved m))"
      using keep by (auto simp: f(1,2))
  qed
  have 3: "waitersJoin sm'"
  proof (rule waitersJoinI)
    fix k c' assume "Waiter k c' \<in> set (tasks sm')"
    then have w: "Waiter k c' \<in> set (tasks sm)" by (simp add: f)
    from waitersJoinD [OF wj w]
    show "c' < length (creations sm') \<and>
     (pendingCreations sm' k = Some c' \<or> creations sm' ! c' = Rejected \<or>
      (\<exists>m. map_of (sessions sm') k = Some m \<and> session m = c'))"
      using keep [of c' Rejected] by (auto simp: f)
  qed
  from 1 2 3 show "noClosing (sm\<lparr>creations := (creations sm)[c := x]\<rparr>) \<and>
      returnedHeld (sm\<lparr>creations := (creations sm)[c := x]\<rparr>) \<and>
      waitersJoin (sm\<lparr>creations := (creations sm)[c := x]\<rparr>)"
    by (simp add: sm'_def)
qed

lemma closes_resume: "resume t ok sm = Some sm' \<Longrightarrow> closes sm' = closes sm"
  by (auto simp: resume_def split: Task.splits Creation.splits if_splits)

lemma set_remove_nth: "set (take i xs @ drop (Suc i) xs) \<subseteq> set xs"
  using set_take_subset [of i xs] set_drop_subset [of "Suc i" xs] by auto

lemma invReturned_resume:
  assumes inv: "invSM sm" and ir: "invReturned sm" and i: "i < length (tasks sm)"
    and r: "resume (tasks sm ! i) ok (sm\<lparr>tasks := take i (tasks sm) @ drop (Suc i) (tasks sm)\<rparr>) = Some sm'"
  shows "invReturned sm'"
  unfolding invReturned_def
proof
  define sm0 where "sm0 = sm\<lparr>tasks := take i (tasks sm) @ drop (Suc i) (tasks sm)\<rparr>"
  from r have r0: "resume (tasks sm ! i) ok sm0 = Some sm'" by (simp add: sm0_def)
  assume "closes sm' = 0"
  then have "closes sm = 0" using closes_resume [OF r0] by (simp add: sm0_def)
  with ir have nc: "noClosing sm" and rh: "returnedHeld sm" and wj: "waitersJoin sm"
    by (simp_all add: invReturned_def)
  have sub: "set (tasks sm0) \<subseteq> set (tasks sm)"
    using set_remove_nth [of i "tasks sm"] by (simp add: sm0_def del: set_append)
  have mem: "tasks sm ! i \<in> set (tasks sm)" using i by simp
  have f0: "sessions sm0 = sessions sm" "pendingCreations sm0 = pendingCreations sm"
    "creations sm0 = creations sm" "returned sm0 = returned sm"
    by (simp_all add: sm0_def)
  have plen: "\<And>k' v. pendingCreations sm k' = Some v \<Longrightarrow> map_of (sessions sm) k' = None"
    using inv by (simp add: invSM_def)
  have sid: "\<And>c m. c < length (creations sm) \<Longrightarrow> creations sm ! c = Resolved m \<Longrightarrow> session m = c"
    using inv by (simp add: invSM_def)
  show "noClosing sm' \<and> returnedHeld sm' \<and> waitersJoin sm'"
  proof (cases "tasks sm ! i")
    case (Creator k c)
    then have "Creator k c \<in> set (tasks sm)" using mem by simp
    with inv have pend: "pendingCreations sm k = Some c" by (rule creator_is_pending)
    then have nosess: "map_of (sessions sm) k = None" and clen: "c < length (creations sm)"
      using inv by (simp_all add: invSM_def)
    from r0 Creator have r': "resume (Creator k c) ok sm0 = Some sm'" by simp
    show ?thesis
    proof (cases "creations sm ! c")
      case InFlight
      with r' show ?thesis by (simp add: resume_def f0)
    next
      case (Resolved managed)
      have sm: "session managed = c" using sid [OF clen Resolved] .
      from r' Resolved have f: "sessions sm' = mapSet k managed (sessions sm)"
        "pendingCreations sm' = (pendingCreations sm)(k := None)"
        "creations sm' = creations sm" "tasks sm' = tasks sm0"
        "returned sm' = returned sm @ [(k, c)]"
        by (auto simp: resume_def f0 sm)
      have 1: "noClosing sm'" using nc sub by (auto simp: noClosing_def f)
      have 2: "returnedHeld sm'"
      proof (rule returnedHeldI)
        fix k' v assume "(k', v) \<in> set (returned sm')"
        then consider "(k', v) \<in> set (returned sm)" | "k' = k" "v = c" by (auto simp: f)
        then show "(\<exists>m. map_of (sessions sm') k' = Some m \<and> session m = v) \<or>
           (pendingCreations sm' k' = Some v \<and> (\<exists>m. creations sm' ! v = Resolved m))"
        proof cases
          case 1
          from returnedHeldD [OF rh 1] show ?thesis
            using nosess pend sm by (auto simp: f map_of_mapSet)
        next
          case 2
          then show ?thesis using sm by (simp add: f map_of_mapSet)
        qed
      qed
      have 3: "waitersJoin sm'"
      proof (rule waitersJoinI)
        fix k' c' assume "Waiter k' c' \<in> set (tasks sm')"
        then have w: "Waiter k' c' \<in> set (tasks sm)" using sub by (auto simp: f)
        from waitersJoinD [OF wj w]
        show "c' < length (creations sm') \<and>
          (pendingCreations sm' k' = Some c' \<or> creations sm' ! c' = Rejected \<or>
           (\<exists>m. map_of (sessions sm') k' = Some m \<and> session m = c'))"
          using nosess pend sm by (auto simp: f map_of_mapSet)
      qed
      from 1 2 3 show ?thesis by simp
    next
      case Rejected
      from r' Rejected have f: "sessions sm' = sessions sm"
        "pendingCreations sm' = (pendingCreations sm)(k := None)"
        "creations sm' = creations sm" "tasks sm' = tasks sm0"
        "returned sm' = returned sm"
        by (auto simp: resume_def f0)
      have 1: "noClosing sm'" using nc sub by (auto simp: noClosing_def f)
      have 2: "returnedHeld sm'"
      proof (rule returnedHeldI)
        fix k' v assume "(k', v) \<in> set (returned sm')"
        then have "(k', v) \<in> set (returned sm)" by (simp add: f)
        from returnedHeldD [OF rh this]
        show "(\<exists>m. map_of (sessions sm') k' = Some m \<and> session m = v) \<or>
           (pendingCreations sm' k' = Some v \<and> (\<exists>m. creations sm' ! v = Resolved m))"
          using nosess pend Rejected by (auto simp: f)
      qed
      have 3: "waitersJoin sm'"
      proof (rule waitersJoinI)
        fix k' c' assume "Waiter k' c' \<in> set (tasks sm')"
        then have w: "Waiter k' c' \<in> set (tasks sm)" using sub by (auto simp: f)
        from waitersJoinD [OF wj w]
        show "c' < length (creations sm') \<and>
          (pendingCreations sm' k' = Some c' \<or> creations sm' ! c' = Rejected \<or>
           (\<exists>m. map_of (sessions sm') k' = Some m \<and> session m = c'))"
          using nosess pend Rejected by (auto simp: f)
      qed
      from 1 2 3 show ?thesis by simp
    qed
  next
    case (Waiter k c)
    then have w0: "Waiter k c \<in> set (tasks sm)" using mem by simp
    note wd = waitersJoinD [OF wj w0]
    from r0 Waiter have r': "resume (Waiter k c) ok sm0 = Some sm'" by simp
    have keepW: "waitersJoin sm'" if f: "sessions sm' = sessions sm"
        "pendingCreations sm' = pendingCreations sm" "creations sm' = creations sm"
        "tasks sm' = tasks sm0"
    proof (rule waitersJoinI)
      fix k' c' assume "Waiter k' c' \<in> set (tasks sm')"
      then have w: "Waiter k' c' \<in> set (tasks sm)" using sub by (auto simp: f)
      from waitersJoinD [OF wj w]
      show "c' < length (creations sm') \<and>
        (pendingCreations sm' k' = Some c' \<or> creations sm' ! c' = Rejected \<or>
         (\<exists>m. map_of (sessions sm') k' = Some m \<and> session m = c'))"
        by (simp add: f)
    qed
    show ?thesis
    proof (cases "creations sm ! c")
      case InFlight
      with r' show ?thesis by (simp add: resume_def f0)
    next
      case (Resolved managed)
      have sm: "session managed = c" using sid [OF wd(1) Resolved] .
      from r' Resolved have f: "sessions sm' = sessions sm"
        "pendingCreations sm' = pendingCreations sm"
        "creations sm' = creations sm" "tasks sm' = tasks sm0"
        "returned sm' = returned sm @ [(k, c)]"
        by (auto simp: resume_def f0 sm)
      have 1: "noClosing sm'" using nc sub by (auto simp: noClosing_def f)
      have 2: "returnedHeld sm'"
      proof (rule returnedHeldI)
        fix k' v assume "(k', v) \<in> set (returned sm')"
        then consider "(k', v) \<in> set (returned sm)" | "k' = k" "v = c" by (auto simp: f)
        then show "(\<exists>m. map_of (sessions sm') k' = Some m \<and> session m = v) \<or>
           (pendingCreations sm' k' = Some v \<and> (\<exists>m. creations sm' ! v = Resolved m))"
        proof cases
          case 1
          from returnedHeldD [OF rh 1] show ?thesis by (simp add: f)
        next
          case 2
          then show ?thesis using wd(2) Resolved by (auto simp: f)
        qed
      qed
      from 1 2 keepW [OF f(1-4)] show ?thesis by simp
    next
      case Rejected
      from r' Rejected have e: "sm' = sm0" by (simp add: resume_def f0)
      have f: "sessions sm' = sessions sm"
        "pendingCreations sm' = pendingCreations sm"
        "creations sm' = creations sm" "tasks sm' = tasks sm0"
        "returned sm' = returned sm"
        by (simp_all add: e f0)
      have 1: "noClosing sm'" using nc sub by (auto simp: noClosing_def f)
      have 2: "returnedHeld sm'"
      proof (rule returnedHeldI)
        fix k' v assume "(k', v) \<in> set (returned sm')"
        then have "(k', v) \<in> set (returned sm)" by (simp add: f)
        from returnedHeldD [OF rh this]
        show "(\<exists>m. map_of (sessions sm') k' = Some m \<and> session m = v) \<or>
           (pendingCreations sm' k' = Some v \<and> (\<exists>m. creations sm' ! v = Resolved m))"
          by (simp add: f)
      qed
      from 1 2 keepW [OF f(1-4)] show ?thesis by simp
    qed
  next
    case (ClosingChain k)
    with mem nc show ?thesis by (auto simp: noClosing_def)
  next
    case (ClosingSession k)
    with mem nc show ?thesis by (auto simp: noClosing_def)
  qed
qed

lemma invReturned_new: "invReturned (newSessionManager maxS hc)"
  by (simp add: invReturned_def newSessionManager_def noClosing_def returnedHeld_def waitersJoin_def)

lemma invReturned_closeSession: "invReturned sm \<Longrightarrow> invReturned (closeSession k sm)"
proof -
  assume ir: "invReturned sm"
  show ?thesis unfolding invReturned_def
  proof
    assume "closes (closeSession k sm) = 0"
    then have "closeSession k sm = sm" by (rule closeSession_quiet)
    with ir \<open>closes (closeSession k sm) = 0\<close>
    show "noClosing (closeSession k sm) \<and> returnedHeld (closeSession k sm) \<and>
        waitersJoin (closeSession k sm)"
      by (simp add: invReturned_def)
  qed
qed

lemma inv_step:
  assumes "invSM sm" and "invReturned sm" and "step ev sm = Some sm'"
  shows "invSM sm' \<and> invReturned sm'"
proof
  show "invSM sm'" using assms(1,3) by (rule invSM_step)
  show "invReturned sm'"
  proof (cases ev)
    case (CallGetOrCreate k now)
    then have "sm' = getOrCreateByKey k now sm" using assms(3) by (simp add: step_def)
    then show ?thesis using invReturned_getOrCreate [OF assms(1,2)] by simp
  next
    case (CallClose k)
    then have "sm' = closeSession k sm" using assms(3) by (simp add: step_def)
    then show ?thesis using invReturned_closeSession [OF assms(2)] by simp
  next
    case (Resolve c t1 t2)
    then have c: "c < length (creations sm)" "creations sm ! c = InFlight"
      and e: "sm' = sm\<lparr>creations := (creations sm)
                         [c := Resolved \<lparr>session = c, createdAt_s = t1, lastAccessedAt = t2\<rparr>]\<rparr>"
      using assms(3) by (auto simp: step_def split: if_splits)
    show ?thesis unfolding e by (rule invReturned_settle [OF assms(2) c]) simp
  next
    case (Reject c)
    then have c: "c < length (creations sm)" "creations sm ! c = InFlight"
      and e: "sm' = sm\<lparr>creations := (creations sm)[c := Rejected]\<rparr>"
      using assms(3) by (auto simp: step_def split: if_splits)
    show ?thesis unfolding e by (rule invReturned_settle [OF assms(2) c]) simp
  next
    case (Resume i ok)
    then have "i < length (tasks sm)" and
      "resume (tasks sm ! i) ok (sm\<lparr>tasks := take i (tasks sm) @ drop (Suc i) (tasks sm)\<rparr>) = Some sm'"
      using assms(3) by (auto simp: step_def split: if_splits)
    with assms(1,2) show ?thesis by (rule invReturned_resume)
  qed
qed

lemma inv_run:
  "invSM sm \<Longrightarrow> invReturned sm \<Longrightarrow> runEvents evs sm = Some sm' \<Longrightarrow> invSM sm' \<and> invReturned sm'"
proof (induction evs arbitrary: sm)
  case Nil
  then show ?case by simp
next
  case (Cons ev evs)
  then obtain sm1 where s1: "step ev sm = Some sm1" and rest: "runEvents evs sm1 = Some sm'"
    by (auto split: option.splits)
  from inv_step [OF Cons.prems(1,2) s1] have "invSM sm1" "invReturned sm1" by simp_all
  from Cons.IH [OF this rest] show ?case .
qed

text \<open>
  C5. After any run of calls, settlements and continuations on a fresh manager:
  no key has both a session installed and a creation pending, so the manager holds
  at most one session object per key; at most one creation per key is in flight,
  the one recorded in the pending map; a call for a key whose creation is pending
  starts nothing and waits for that creation, and when it resumes it returns the
  session that creation made; a call for a key with a session installed creates
  nothing and returns that session. As long as no session has been closed, all the
  calls that have returned for one key have returned the same session.
\<close>

theorem single_flight:
  assumes "runEvents evs (newSessionManager maxS hc) = Some sm"
  shows "(\<forall>k. map_of (sessions sm) k = None \<or> pendingCreations sm k = None) \<and>
         (\<forall>k. length (creatorsOf k sm) \<le> 1) \<and>
         (\<forall>k c. Creator k c \<in> set (tasks sm) \<longrightarrow> pendingCreations sm k = Some c) \<and>
         (\<forall>k c now. pendingCreations sm k = Some c \<longrightarrow>
            getOrCreateByKey k now sm = sm\<lparr>tasks := tasks sm @ [Waiter k c]\<rparr>) \<and>
         (\<forall>i k c m ok. i < length (tasks sm) \<and> tasks sm ! i = Waiter k c \<and> creations sm ! c = Resolved m \<longrightarrow>
            (\<exists>sm'. step (Resume i ok) sm = Some sm' \<and> returned sm' = returned sm @ [(k, session m)] \<and>
                   creations sm' = creations sm)) \<and>
         (\<forall>k m now. map_of (sessions sm) k = Some m \<longrightarrow>
            creations (getOrCreateByKey k now sm) = creations sm \<and>
            returned (getOrCreateByKey k now sm) = returned sm @ [(k, session m)]) \<and>
         (closes sm = 0 \<longrightarrow>
            (\<forall>k v v'. (k, v) \<in> set (returned sm) \<and> (k, v') \<in> set (returned sm) \<longrightarrow> v = v'))"
proof -
  have "invSM sm \<and> invReturned sm"
    using invSM_new invReturned_new assms by (rule inv_run)
  then have inv: "invSM sm" and ir: "invReturned sm" by simp_all
  have p1: "map_of (sessions sm) k = None \<or> pendingCreations sm k = None" for k
    using inv by (cases "pendingCreations sm k") (auto simp: invSM_def)
  have p2: "length (creatorsOf k sm) \<le> 1" for k
    using inv by (cases "pendingCreations sm k") (auto simp: invSM_def)
  have p3: "pendingCreations sm k = Some c" if "Creator k c \<in> set (tasks sm)" for k c
    using inv that by (rule creator_is_pending)
  have p4: "getOrCreateByKey k now sm = sm\<lparr>tasks := tasks sm @ [Waiter k c]\<rparr>"
    if "pendingCreations sm k = Some c" for k c now
  proof -
    from that p1 [of k] have "map_of (sessions sm) k = None" by simp
    with that show ?thesis by (simp add: getOrCreateByKey_def)
  qed
  have p5: "\<exists>sm'. step (Resume i ok) sm = Some sm' \<and> returned sm' = returned sm @ [(k, session m)] \<and>
                   creations sm' = creations sm"
    if "i < length (tasks sm) \<and> tasks sm ! i = Waiter k c \<and> creations sm ! c = Resolved m" for i k c m ok
    using that by (simp add: step_def resume_def)
  have p6: "creations (getOrCreateByKey k now sm) = creations sm \<and>
            returned (getOrCreateByKey k now sm) = returned sm @ [(k, session m)]"
    if "map_of (sessions sm) k = Some m" for k m now
    using that by (simp add: getOrCreateByKey_def)
  have p7: "v = v'" if c0: "closes sm = 0" and a: "(k, v) \<in> set (returned sm)" and b: "(k, v') \<in> set (returned sm)"
    for k v v'
  proof -
    from ir c0 have rh: "returnedHeld sm" by (simp add: invReturned_def)
    from returnedHeldD [OF rh a] returnedHeldD [OF rh b] p1 [of k]
    show ?thesis by auto
  qed
  show ?thesis using p1 p2 p3 p4 p5 p6 p7 by blast
qed

theorem single_flight_witness:
  "(let sm = the (runEvents [CallGetOrCreate ''http:a'' 10, CallGetOrCreate ''http:a'' 11,
                             CallGetOrCreate ''http:b'' 12, Resolve 0 20 20, Resume 1 True,
                             Resume 0 True, CallGetOrCreate ''http:a'' 30]
                            (newSessionManager 100 False))
    in returned sm = [(''http:a'', 0), (''http:a'', 0), (''http:a'', 0)] \<and>
       map fst (sessions sm) = [''http:a''] \<and>
       pendingCreations sm ''http:b'' = Some 1 \<and>
       tasks sm = [Creator ''http:b'' 1] \<and>
       length (creations sm) = 2 \<and> closes sm = 0 \<and>
       getOrCreateByKey ''http:b'' 40 sm = sm\<lparr>tasks := tasks sm @ [Waiter ''http:b'' 1]\<rparr> \<and>
       set (returned sm) = {(''http:a'', 0)})"
proof -
  define evs where "evs = [CallGetOrCreate ''http:a'' 10, CallGetOrCreate ''http:a'' 11,
                             CallGetOrCreate ''http:b'' 12, Resolve 0 20 20, Resume 1 True,
                             Resume 0 True, CallGetOrCreate ''http:a'' 30]"
  define sm where "sm = the (runEvents evs (newSessionManager 100 False))"
  have ex: "\<exists>y. runEvents evs (newSessionManager 100 False) = Some y"
    by (simp add: evs_def step_def getOrCreateByKey_def newSessionManager_def resume_def Let_def)
  then have run: "runEvents evs (newSessionManager 100 False) = Some sm" by (auto simp: sm_def)
  have vals: "returned sm = [(''http:a'', 0), (''http:a'', 0), (''http:a'', 0)]"
    "map fst (sessions sm) = [''http:a'']" "pendingCreations sm ''http:b'' = Some 1"
    "tasks sm = [Creator ''http:b'' 1]" "length (creations sm) = 2" "closes sm = 0"
    by (simp_all add: sm_def evs_def step_def getOrCreateByKey_def newSessionManager_def resume_def Let_def)
  note sf = single_flight [OF run]
  from sf vals(3) have j: "getOrCreateByKey ''http:b'' 40 sm = sm\<lparr>tasks := tasks sm @ [Waiter ''http:b'' 1]\<rparr>"
    by blast
  from sf vals(6) have s: "\<forall>k v v'. (k, v) \<in> set (returned sm) \<and> (k, v') \<in> set (returned sm) \<longrightarrow> v = v'"
    by blast
  have r: "set (returned sm) = {(''http:a'', 0)}" by (simp add: vals(1))
  from vals j r show ?thesis unfolding Let_def sm_def [symmetric] evs_def [symmetric] by simp
qed

section \<open>Concurrent chat requests on the agent server\<close>

text \<open>
  C2. Requests with one session id are not serialized, and the cache does not keep
  them on one session. Two requests with the same id arrive on a fresh server before
  either creation has finished: \<open>getOrCreateSession\<close> misses the cache for both, a
  session object is created for each, the second replaces the first in the cache,
  and both prompts are in flight at once, the first on the object no longer cached.
  A third request with that id starts its prompt on the cached object beside them.
\<close>

theorem chat_same_session_race:
  "serverRun
     [Post 1 \<lparr>message_b = Some ''hi'', session_id = Some ''chat-0123456789abcdef''\<rparr> ''00112233aabbccdd'',
      Post 2 \<lparr>message_b = Some ''again'', session_id = Some ''chat-0123456789abcdef''\<rparr> ''99112233aabbccdd'',
      MkdirDone 1 None, MkdirDone 2 None, CreateDone 1 None, CreateDone 2 None,
      Continue 1, Continue 2,
      Post 3 \<lparr>message_b = Some ''more'', session_id = Some ''chat-0123456789abcdef''\<rparr> ''55112233aabbccdd'',
      Continue 3]
     newAgentServer
   = Some \<lparr>sessionCache = [(''chat-0123456789abcdef'', 1)],
            handlers = [(1, AwaitPrompt ''chat-0123456789abcdef'' ''hi'' 0),
                        (2, AwaitPrompt ''chat-0123456789abcdef'' ''again'' 1),
                        (3, AwaitPrompt ''chat-0123456789abcdef'' ''more'' 1)],
            replies = [], created = 2\<rparr> \<and>
   prompting ''chat-0123456789abcdef''
     \<lparr>sessionCache = [(''chat-0123456789abcdef'', 1)],
      handlers = [(1, AwaitPrompt ''chat-0123456789abcdef'' ''hi'' 0),
                  (2, AwaitPrompt ''chat-0123456789abcdef'' ''again'' 1),
                  (3, AwaitPrompt ''chat-0123456789abcdef'' ''more'' 1)],
      replies = [], created = 2\<rparr>
   = [1, 2, 3]"
proof -
  have id: "\<And>sfx. chatSessionId (Some ''chat-0123456789abcdef'') sfx = ''chat-0123456789abcdef''"
    by (simp add: chatSessionId_def truthy_def hasSecureSuffix_def isHex_def isLineTerminator_def Let_def)
  show ?thesis
    by (simp add: id serverStep_def setHandler_def newAgentServer_def truthy_def prompting_def Let_def)
qed

end
